theory Spec2Isabelle
  imports Main
begin

section \<open>Values, keys and errors\<close>

text \<open>
  The lookup engine of \<^verbatim>\<open>session/session.go\<close> works on dgo values. A Go \<^verbatim>\<open>nil\<close>
  of type \<^verbatim>\<open>dgo.Value\<close> (the engine's "undefined") is \<open>None\<close> of \<open>dvalue option\<close>;
  \<open>NilValue\<close> is dgo's own nil value, which is a defined value.
\<close>

datatype dvalue =
    NilValue
  | Boolean bool
  | Integer int
  | String string
  | Array "dvalue list"
  | Map "(dvalue \<times> dvalue) list"
  | Arguments "dvalue list"

type_synonym dmap = "(dvalue \<times> dvalue) list"

text \<open>\<^verbatim>\<open>dgo.Map.Get(key)\<close> is Go \<^verbatim>\<open>nil\<close> when the key is absent; \<^verbatim>\<open>Without(key)\<close> drops the entry.\<close>

definition Map_Get :: "dmap \<Rightarrow> string \<Rightarrow> dvalue option" where
  "Map_Get m k = map_of m (String k)"

definition Map_Without :: "dmap \<Rightarrow> string \<Rightarrow> dmap" where
  "Map_Without m k = filter (\<lambda>e. fst e \<noteq> String k) m"

text \<open>
  \<^verbatim>\<open>dgo.Type\<close>: \<open>Sensitive\<close> is \<^verbatim>\<open>typ.Sensitive\<close>, the marker type that
  \<^verbatim>\<open>LookupAndConvertData\<close> compares with; every other type is known by its name.
  Equality of the model is \<^verbatim>\<open>Equals\<close>.
\<close>

datatype dgo_type = Sensitive | NamedType string

text \<open>
  \<^verbatim>\<open>hieraapi.Key\<close>: \<^verbatim>\<open>Source()\<close> is the string the key was parsed from, \<^verbatim>\<open>Root()\<close> its
  first segment, \<open>Parts\<close> the segments after the root (strings or indexes).
\<close>

record key =
  Source :: string
  Root :: string
  Parts :: "dvalue list"

text \<open>
  A panic is a result \<open>Inl e\<close>. \<open>Errorf\<close> carries the message of
  \<^verbatim>\<open>panic(fmt.Errorf(...))\<close> and \<^verbatim>\<open>panic(errors.New(...))\<close>, \<open>TypeAssertion\<close> is a failed
  interface conversion, \<open>SliceBounds\<close> a slice expression out of range, \<open>NotFound\<close> the
  \<^verbatim>\<open>hieraapi.NotFound\<close> signal and \<open>Failure\<close> any panic of an external collaborator.
\<close>

datatype error =
    Errorf string
  | TypeAssertion
  | SliceBounds
  | NotFound
  | Failure string

text \<open>\<^verbatim>\<open>strings.Join(elems, sep)\<close>.\<close>

fun Join :: "string list \<Rightarrow> string \<Rightarrow> string" where
  "Join [] sep = []"
| "Join [x] sep = x"
| "Join (x # y # ys) sep = x @ sep @ Join (y # ys) sep"

section \<open>The invocation context\<close>

datatype invocationMode = topLevelMode | lookupOptionsMode | dataMode

text \<open>
  \<^verbatim>\<open>hieraapi.Location\<close>, \<^verbatim>\<open>hieraapi.MergeStrategy\<close> and \<^verbatim>\<open>hieraapi.Explainer\<close> are
  interfaces declared outside the sources at hand. A location is its path and the
  answer of \<^verbatim>\<open>Exists()\<close>; a merge strategy is what \<^verbatim>\<open>merge.GetStrategy\<close> built it from;
  an explainer is its two query flags. What an explainer receives is recorded, in
  order, in the \<open>trace\<close> of the state below: one event for each method the engine
  calls on it.
\<close>

record location =
  Path :: string
  Exists :: bool

record mergeStrategy =
  Name :: string
  MergeOptions :: "dmap option"

record explainer =
  Options :: bool
  OnlyOptions :: bool

datatype keyed = MapScope dmap | NestedScope keyed keyed

datatype event =
    PushDataProvider string
  | PushInterpolation string
  | PushInvalidKey key
  | PushLocation location
  | PushLookup key
  | PushMerge mergeStrategy
  | PushSegment dvalue
  | PushSubLookup key
  | Pop
  | AcceptFound key dvalue
  | AcceptLocationNotFound
  | AcceptMergeResult dvalue
  | AcceptMergeSource string
  | AcceptNotFound key
  | AcceptText string

text \<open>
  The struct \<^verbatim>\<open>ivContext\<close>. The embedded \<^verbatim>\<open>Session\<close> is passed to the functions that
  use it, and \<^verbatim>\<open>configs\<close> belongs to \<^verbatim>\<open>Config\<close>, modelled in its own section.
\<close>

record ivContext =
  nameStack :: "string list"
  scope :: keyed
  luOpts :: "dmap option"
  strategy :: "mergeStrategy option"
  explainer :: "explainer option"
  mode :: invocationMode
  redacted :: bool

text \<open>
  The state a method of \<^verbatim>\<open>*ivContext\<close> runs in: the struct behind the pointer, the
  events the explainer object has received, and \<open>ext\<close>, whatever the external
  collaborators (providers, plugins, files) keep of their own. A Go closure
  (\<^verbatim>\<open>dgo.Producer\<close>, \<^verbatim>\<open>dgo.Doer\<close>) or external function is an \<open>action\<close>: it may change
  all three and either returns or panics.
\<close>

record 'x state =
  ic :: ivContext
  trace :: "event list"
  ext :: 'x

type_synonym ('x, 'r) action = "'x state \<Rightarrow> (error + 'r) \<times> 'x state"

definition newInvocation :: "keyed \<Rightarrow> explainer option \<Rightarrow> ivContext" where
  "newInvocation sc ex =
     \<lparr>nameStack = [], scope = sc, luOpts = None, strategy = None,
      explainer = ex, mode = topLevelMode, redacted = False\<rparr>"

subsection \<open>Recursion detection and redaction\<close>

text \<open>
  \<^verbatim>\<open>WithKey\<close>: the deferred function runs when the actor returns and when it panics; it
  cuts the last element off whatever the stack then is, and itself panics on an
  empty stack.
\<close>

definition WithKey :: "key \<Rightarrow> ('x, 'r) action \<Rightarrow> ('x, 'r) action" where
  "WithKey k actor st =
     (if Source k \<in> set (nameStack (ic st))
      then (Inl (Errorf (''recursive lookup detected in ['' @ Join (nameStack (ic st)) '', '' @ '']'')), st)
      else
        let st1 = st\<lparr>ic := (ic st)\<lparr>nameStack := nameStack (ic st) @ [Source k]\<rparr>\<rparr>;
            (r, st2) = actor st1
        in if nameStack (ic st2) = [] then (Inl SliceBounds, st2)
           else (r, st2\<lparr>ic := (ic st2)\<lparr>nameStack := butlast (nameStack (ic st2))\<rparr>\<rparr>))"

text \<open>
  \<^verbatim>\<open>DoRedacted\<close>. The Go doer returns nothing and hands its result over through a
  captured variable; here the doer's result is the result of the action.
\<close>

definition DoRedacted :: "('x, 'r) action \<Rightarrow> ('x, 'r) action" where
  "DoRedacted doer st =
     (if redacted (ic st) then doer st
      else
        let (r, st2) = doer (st\<lparr>ic := (ic st)\<lparr>redacted := True\<rparr>\<rparr>)
        in (r, st2\<lparr>ic := (ic st2)\<lparr>redacted := False\<rparr>\<rparr>))"

subsection \<open>Explain frames and reports\<close>

text \<open>
  Every \<^verbatim>\<open>With...\<close> method has one body: without an explainer it runs the actor;
  with one it pushes its frame, runs the actor, and the deferred \<^verbatim>\<open>Pop\<close> follows
  on return and on panic alike. \<open>framed\<close> is that body, with the pushed frame \<open>ev\<close>.
\<close>

definition framed :: "event \<Rightarrow> ('x, 'r) action \<Rightarrow> ('x, 'r) action" where
  "framed ev actor st =
     (if explainer (ic st) = None then actor st
      else
        let (r, st2) = actor (st\<lparr>trace := trace st @ [ev]\<rparr>)
        in (r, st2\<lparr>trace := trace st2 @ [Pop]\<rparr>))"

definition WithInterpolation :: "string \<Rightarrow> ('x, 'r) action \<Rightarrow> ('x, 'r) action" where
  "WithInterpolation expr = framed (PushInterpolation expr)"

definition WithInvalidKey :: "key \<Rightarrow> ('x, 'r) action \<Rightarrow> ('x, 'r) action" where
  "WithInvalidKey k = framed (PushInvalidKey k)"

definition WithLocation :: "location \<Rightarrow> ('x, 'r) action \<Rightarrow> ('x, 'r) action" where
  "WithLocation loc = framed (PushLocation loc)"

definition WithLookup :: "key \<Rightarrow> ('x, 'r) action \<Rightarrow> ('x, 'r) action" where
  "WithLookup k = framed (PushLookup k)"

definition WithMerge :: "mergeStrategy \<Rightarrow> ('x, 'r) action \<Rightarrow> ('x, 'r) action" where
  "WithMerge ms = framed (PushMerge ms)"

definition WithSegment :: "dvalue \<Rightarrow> ('x, 'r) action \<Rightarrow> ('x, 'r) action" where
  "WithSegment seg = framed (PushSegment seg)"

definition WithSubLookup :: "key \<Rightarrow> ('x, 'r) action \<Rightarrow> ('x, 'r) action" where
  "WithSubLookup k = framed (PushSubLookup k)"

text \<open>Every \<^verbatim>\<open>Report...\<close> method hands one event to the explainer, if there is one.\<close>

definition report :: "event \<Rightarrow> 'x state \<Rightarrow> 'x state" where
  "report ev st = (if explainer (ic st) \<noteq> None then st\<lparr>trace := trace st @ [ev]\<rparr> else st)"

definition ReportLocationNotFound :: "'x state \<Rightarrow> 'x state" where
  "ReportLocationNotFound = report AcceptLocationNotFound"


definition ReportMergeResult :: "dvalue \<Rightarrow> 'x state \<Rightarrow> 'x state" where
  "ReportMergeResult v = report (AcceptMergeResult v)"

definition ReportMergeSource :: "string \<Rightarrow> 'x state \<Rightarrow> 'x state" where
  "ReportMergeSource src = report (AcceptMergeSource src)"

definition ReportNotFound :: "key \<Rightarrow> 'x state \<Rightarrow> 'x state" where
  "ReportNotFound k = report (AcceptNotFound k)"


subsection \<open>Narrowed invocations\<close>

text \<open>
  \<^verbatim>\<open>ForData\<close> and \<^verbatim>\<open>ForLookupOptions\<close> return the receiver itself when it is already in
  the mode asked for, and otherwise a copy of the struct with the mode set and the
  explainer possibly dropped. The copy shares the explainer object, so what it
  reports lands in the same \<open>trace\<close>.
\<close>

definition DataMode :: "ivContext \<Rightarrow> bool" where
  "DataMode c = (mode c = dataMode)"

definition LookupOptionsMode :: "ivContext \<Rightarrow> bool" where
  "LookupOptionsMode c = (mode c = lookupOptionsMode)"

definition ExplainMode :: "ivContext \<Rightarrow> bool" where
  "ExplainMode c = (explainer c \<noteq> None)"

definition ForConfig :: "ivContext \<Rightarrow> ivContext" where
  "ForConfig c = (if explainer c = None then c else c\<lparr>explainer := None\<rparr>)"

definition ForData :: "ivContext \<Rightarrow> ivContext" where
  "ForData c =
     (if DataMode c then c
      else c\<lparr>explainer :=
                (case explainer c of
                   None \<Rightarrow> None
                 | Some e \<Rightarrow> if OnlyOptions e then None else Some e),
              mode := dataMode\<rparr>)"

definition ForLookupOptions :: "ivContext \<Rightarrow> ivContext" where
  "ForLookupOptions c =
     (if LookupOptionsMode c then c
      else c\<lparr>explainer :=
                (case explainer c of
                   None \<Rightarrow> None
                 | Some e \<Rightarrow> if Options e \<or> OnlyOptions e then Some e else None),
              mode := lookupOptionsMode\<rparr>)"

subsection \<open>Merge strategy selection and type conversion\<close>

text \<open>
  \<^verbatim>\<open>SetMergeStrategy\<close>. \<^verbatim>\<open>merge.GetStrategy\<close> lives outside the sources at hand and is
  the parameter \<open>GetStrategy\<close>; it may panic on a name it does not know. The
  field \<^verbatim>\<open>luOpts\<close> is assigned before it is called. A map without a string under
  \<^verbatim>\<open>strategy\<close> leaves the name empty and the options \<^verbatim>\<open>nil\<close>.
\<close>

definition SetMergeStrategy ::
  "(string \<Rightarrow> dmap option \<Rightarrow> error + mergeStrategy) \<Rightarrow> dvalue option \<Rightarrow> dmap option \<Rightarrow> ('x, unit) action"
where
  "SetMergeStrategy GetStrategy cliMergeOption lookupOptions st =
     (let (opts, st1) =
            (case cliMergeOption of
               Some c \<Rightarrow> (Some c, ReportMergeSource ''CLI option'' st)
             | None \<Rightarrow>
                 (case lookupOptions of
                    None \<Rightarrow> (None, st)
                  | Some lo \<Rightarrow>
                      (case Map_Get lo ''merge'' of
                         None \<Rightarrow> (None, st)
                       | Some m \<Rightarrow>
                           (Some m,
                            ReportMergeSource (CHR 0x22 # ''lookup_options'' @ CHR 0x22 # '' hash'') st))));
          (mergeName, mergeOpts) =
            (case opts of
               Some (String s) \<Rightarrow> (s, None)
             | Some (Map m) \<Rightarrow>
                 (case Map_Get m ''strategy'' of
                    Some (String mn) \<Rightarrow> (mn, Some (Map_Without m ''strategy''))
                  | _ \<Rightarrow> ([], None))
             | _ \<Rightarrow> (''first'', None));
          st2 = st1\<lparr>ic := (ic st1)\<lparr>luOpts := lookupOptions\<rparr>\<rparr>
      in case GetStrategy mergeName mergeOpts of
           Inl e \<Rightarrow> (Inl e, st2)
         | Inr ms \<Rightarrow> (Inr (), st2\<lparr>ic := (ic st2)\<lparr>strategy := Some ms\<rparr>\<rparr>))"



subsection \<open>Providers, locations and the lookup\<close>

text \<open>
  \<^verbatim>\<open>hieraapi.DataProvider\<close>: its name, the locations of its hierarchy entry
  (\<^verbatim>\<open>dh.Hierarchy().Locations()\<close>) and its \<^verbatim>\<open>LookupKey(key, ic, location)\<close>, where a
  \<^verbatim>\<open>nil\<close> location is \<open>None\<close>.
\<close>

record 'x dataProvider =
  FullName :: string
  Locations :: "location list"
  LookupKey :: "key \<Rightarrow> location option \<Rightarrow> ('x, dvalue option) action"

definition WithDataProvider :: "'x dataProvider \<Rightarrow> ('x, 'r) action \<Rightarrow> ('x, 'r) action" where
  "WithDataProvider p = framed (PushDataProvider (FullName p))"

definition invokeWithLocation ::
  "'x dataProvider \<Rightarrow> location option \<Rightarrow> key \<Rightarrow> ('x, dvalue option) action"
where
  "invokeWithLocation dh loc k st =
     (case loc of
        None \<Rightarrow> LookupKey dh k None st
      | Some l \<Rightarrow>
          WithLocation l
            (\<lambda>s. if Exists l then LookupKey dh k (Some l) s
                 else (Inr None, ReportLocationNotFound s)) st)"

text \<open>
  \<^verbatim>\<open>MergeLocations\<close>. The parameter \<open>MergeLookup\<close> is the method
  \<^verbatim>\<open>merge.MergeLookup(candidates, ic, produce)\<close> of the strategy passed in.
\<close>

definition MergeLocations ::
  "key \<Rightarrow> 'x dataProvider \<Rightarrow>
   (location list \<Rightarrow> (location \<Rightarrow> ('x, dvalue option) action) \<Rightarrow> ('x, dvalue option) action) \<Rightarrow>
   ('x, dvalue option) action"
where
  "MergeLocations k dh MergeLookup =
     WithDataProvider dh
       (\<lambda>st. case Locations dh of
                [] \<Rightarrow> invokeWithLocation dh None k st
              | [l] \<Rightarrow> invokeWithLocation dh (Some l) k st
              | locations \<Rightarrow>
                  MergeLookup locations (\<lambda>l. invokeWithLocation dh (Some l) k) st)"

text \<open>
  The session, as far as \<^verbatim>\<open>Lookup\<close> and the conversion use it: the top provider stored
  under \<^verbatim>\<open>Hiera::TopProvider\<close> (\<^verbatim>\<open>TopProvider()\<close> panics when it is not there) and the
  dialect's \<^verbatim>\<open>ParseType\<close>. The top provider is called with a server context made of the
  options and the invocation, and with the root of the key.
\<close>

record 'x session =
  TopProvider :: "(dmap option \<Rightarrow> string \<Rightarrow> ('x, dvalue option) action) option"
  ParseType :: "string \<Rightarrow> error + dgo_type"

text \<open>
  \<^verbatim>\<open>Lookup\<close>. \<^verbatim>\<open>Interpolate\<close> (a method of the invocation) and \<^verbatim>\<open>key.Dig\<close> are defined
  outside the sources at hand and are parameters. Both run on \<^verbatim>\<open>dc\<close>: the receiver
  itself in data mode, else a copy, whose fields are dropped when \<^verbatim>\<open>Lookup\<close> returns
  while the trace and the external state stay.
\<close>

definition Lookup ::
  "'x session \<Rightarrow> (dvalue \<Rightarrow> bool \<Rightarrow> ('x, dvalue option) action) \<Rightarrow>
   (key \<Rightarrow> dvalue option \<Rightarrow> ('x, dvalue option) action) \<Rightarrow>
   key \<Rightarrow> dmap option \<Rightarrow> ('x, dvalue option) action"
where
  "Lookup s Interpolate Dig k options st =
     (let rootKey = Root k in
      if rootKey = ''lookup_options''
      then WithInvalidKey k (\<lambda>s. (Inr None, ReportNotFound k s)) st
      else
        case TopProvider s of
          None \<Rightarrow> (Inl (Errorf ''session is not initialized''), st)
        | Some provider \<Rightarrow>
            (let (r, st1) = provider options rootKey st
             in case r of
                  Inl e \<Rightarrow> (Inl e, st1)
                | Inr None \<Rightarrow> (Inr None, st1)
                | Inr (Some v) \<Rightarrow>
                    (let aliased = DataMode (ic st1);
                         back = (\<lambda>s. if aliased then s else s\<lparr>ic := ic st1\<rparr>);
                         (r2, st2) = Interpolate v True (st1\<lparr>ic := ForData (ic st1)\<rparr>)
                     in case r2 of
                          Inl e \<Rightarrow> (Inl e, back st2)
                        | Inr v2 \<Rightarrow>
                            (let (r3, st3) = Dig k v2 st2 in (r3, back st3)))))"

section \<open>The provider cache of the server context\<close>

text \<open>
  \<^verbatim>\<open>internal/serverctx.go\<close> works on pcore values; \<open>Undef\<close> is \<^verbatim>\<open>px.Undef\<close>, the
  "undefined" sentinel, a value like any other.
\<close>

datatype px_value =
    Undef
  | PxBoolean bool
  | PxInteger int
  | PxString string
  | PxArray "px_value list"
  | PxHash "(px_value \<times> px_value) list"

text \<open>
  A \<^verbatim>\<open>sync.Map\<close> with its methods \<^verbatim>\<open>Load\<close>, \<^verbatim>\<open>Store\<close> and \<^verbatim>\<open>LoadOrStore\<close>, each
  one atomic step on the map.
\<close>

type_synonym ('k, 'v) syncMap = "'k \<rightharpoonup> 'v"

definition Load :: "('k, 'v) syncMap \<Rightarrow> 'k \<Rightarrow> 'v option \<times> bool" where
  "Load m k = (case m k of None \<Rightarrow> (None, False) | Some v \<Rightarrow> (Some v, True))"

definition Store :: "('k, 'v) syncMap \<Rightarrow> 'k \<Rightarrow> 'v \<Rightarrow> ('k, 'v) syncMap" where
  "Store m k v = m(k \<mapsto> v)"

definition LoadOrStore :: "('k, 'v) syncMap \<Rightarrow> 'k \<Rightarrow> 'v \<Rightarrow> ('v \<times> bool) \<times> ('k, 'v) syncMap" where
  "LoadOrStore m k v =
     (case m k of
        None \<Rightarrow> ((v, False), m(k \<mapsto> v))
      | Some actual \<Rightarrow> ((actual, True), m))"

text \<open>
  The cache of a \<^verbatim>\<open>serverCtx\<close> holds what \<^verbatim>\<open>Cache\<close> and \<^verbatim>\<open>CacheAll\<close> store in it,
  pcore values under string keys, so the conversions \<^verbatim>\<open>old.(px.Value)\<close> and
  \<^verbatim>\<open>v.(px.Value)\<close> succeed. The methods take the map behind \<^verbatim>\<open>c.cache\<close> and return it
  updated.
\<close>

definition Cache ::
  "string \<Rightarrow> px_value \<Rightarrow> (string, px_value) syncMap \<Rightarrow> px_value \<times> (string, px_value) syncMap"
where
  "Cache k v cache =
     (let ((old, loaded), cache1) = LoadOrStore cache k v
      in if loaded then (old, Store cache1 k v) else (Undef, cache1))"

definition CacheAll ::
  "(px_value \<times> px_value) list \<Rightarrow> (px_value \<Rightarrow> string) \<Rightarrow> (string, px_value) syncMap \<Rightarrow>
   (string, px_value) syncMap"
where
  "CacheAll hash toString cache = fold (\<lambda>(k, v) m. Store m (toString k) v) hash cache"

definition CachedValue :: "string \<Rightarrow> (string, px_value) syncMap \<Rightarrow> px_value option \<times> bool" where
  "CachedValue k cache =
     (case Load cache k of
        (Some v, True) \<Rightarrow> (Some v, True)
      | _ \<Rightarrow> (None, False))"

section \<open>Config and the shared cache\<close>

text \<open>
  \<^verbatim>\<open>ivContext.Config\<close> is called by many goroutines, each with an invocation of its own,
  on one session. Its steps on the shared cache and on the locks are atomic
  (\<^verbatim>\<open>sync.Map\<close>, \<^verbatim>\<open>sync.RWMutex\<close>), so a run of the callers is an interleaving of these
  steps. The cache holds configs under \<^verbatim>\<open>HieraConfig:\<close> keys and pointers to locks under
  \<^verbatim>\<open>HieraLock:\<close> keys; a lock is known by the number of the caller that made it.
\<close>

definition hieraConfigsPrefix :: string where
  "hieraConfigsPrefix = ''HieraConfig:''"

definition hieraLockPrefix :: string where
  "hieraLockPrefix = ''HieraLock:''"

datatype 'c entry = ConfigEntry 'c | LockEntry nat

text \<open>
  A \<^verbatim>\<open>sync.RWMutex\<close>: \<^verbatim>\<open>Lock\<close> and \<^verbatim>\<open>RLock\<close> return \<open>None\<close> where the call blocks;
  \<^verbatim>\<open>Unlock\<close> and \<^verbatim>\<open>RUnlock\<close> of a lock that is not held are fatal errors.
\<close>

record RWMutex =
  writer :: bool
  readers :: nat

definition RWMutex_Lock :: "RWMutex \<Rightarrow> RWMutex option" where
  "RWMutex_Lock m = (if writer m \<or> 0 < readers m then None else Some (m\<lparr>writer := True\<rparr>))"

definition RWMutex_Unlock :: "RWMutex \<Rightarrow> error + RWMutex" where
  "RWMutex_Unlock m =
     (if writer m then Inr (m\<lparr>writer := False\<rparr>)
      else Inl (Errorf ''sync: Unlock of unlocked RWMutex''))"

definition RWMutex_RLock :: "RWMutex \<Rightarrow> RWMutex option" where
  "RWMutex_RLock m = (if writer m then None else Some (m\<lparr>readers := Suc (readers m)\<rparr>))"

definition RWMutex_RUnlock :: "RWMutex \<Rightarrow> error + RWMutex" where
  "RWMutex_RUnlock m =
     (if readers m = 0 then Inl (Errorf ''sync: RUnlock of unlocked RWMutex'')
      else Inr (m\<lparr>readers := readers m - 1\<rparr>))"

text \<open>
  Where a caller stands in \<^verbatim>\<open>Config\<close>, named by what it does next:
  \<open>Entry\<close> the default of an empty path and the look into \<^verbatim>\<open>ic.configs\<close>;
  \<open>FastLoad\<close> \<^verbatim>\<open>sc.Load(cp)\<close>;
  \<open>NewLock\<close> \<^verbatim>\<open>myLock := sync.RWMutex{}; myLock.Lock()\<close>, on a lock no one else knows;
  \<open>Publish\<close> \<^verbatim>\<open>sc.LoadOrStore(lc, &myLock)\<close>;
  \<open>Construct\<close> \<^verbatim>\<open>config.New(configPath)\<close>, \<open>StoreConfig\<close> \<^verbatim>\<open>sc.Store(cp, conf)\<close> and
  \<open>Unlock\<close> \<^verbatim>\<open>myLock.Unlock()\<close> of the caller whose lock was stored;
  \<open>UnlockOwn\<close> \<^verbatim>\<open>myLock.Unlock()\<close> of a caller that loaded \<open>lv\<close> instead, followed by the
  conversion of \<open>lv\<close>; \<open>RLock\<close> \<^verbatim>\<open>lock.RLock()\<close>; \<open>Reload\<close> \<^verbatim>\<open>sc.Load(cp)\<close> and
  the conversion \<^verbatim>\<open>val.(hieraapi.Config)\<close>; \<open>RUnlock\<close> \<^verbatim>\<open>lock.RUnlock()\<close>;
  \<open>Resolved\<close> \<^verbatim>\<open>Resolve(ic, conf, moduleName)\<close> and the entry in \<^verbatim>\<open>ic.configs\<close>;
  \<open>Returned\<close> and \<open>Panicked\<close> are the two ends.
\<close>

datatype ('c, 'r) pc =
    Entry
  | FastLoad
  | NewLock
  | Publish
  | Construct
  | StoreConfig 'c
  | Unlock 'c
  | UnlockOwn "'c entry"
  | RLock nat
  | Reload nat
  | RUnlock nat 'c
  | Resolved 'c
  | Returned 'r
  | Panicked error

record ('c, 'r) caller =
  at :: "('c, 'r) pc"
  configPath :: string
  moduleName :: string
  configs :: "string \<rightharpoonup> 'r"

text \<open>
  The session as the callers share it: the cache, the locks, the callers, and what
  \<^verbatim>\<open>config.New\<close> reads (\<open>files\<close>). \<open>newCalls\<close> records every call of \<^verbatim>\<open>config.New\<close>, in
  order: the caller, the path and the result.
\<close>

record ('c, 'r, 'x) shared =
  sharedCache :: "(string, 'c entry) syncMap"
  mutexes :: "nat \<Rightarrow> RWMutex"
  callers :: "('c, 'r) caller list"
  files :: 'x
  newCalls :: "(nat \<times> string \<times> (error + 'c)) list"

text \<open>
  \<^verbatim>\<open>config.New\<close> and \<^verbatim>\<open>Resolve\<close> are defined outside the sources at hand:
  \<^verbatim>\<open>config.New\<close> returns a config or panics, and may read and change the files;
  \<^verbatim>\<open>Resolve\<close> is given the caller's invocation, the config and the module name.
  \<open>HieraConfig\<close> is the session option of that name.
\<close>

record ('c, 'r, 'x) world =
  config_New :: "string \<Rightarrow> 'x \<Rightarrow> (error + 'c) \<times> 'x"
  Resolve :: "nat \<Rightarrow> 'c \<Rightarrow> string \<Rightarrow> 'r"
  HieraConfig :: string

definition goto :: "nat \<Rightarrow> ('c, 'r) pc \<Rightarrow> ('c, 'r, 'x) shared \<Rightarrow> ('c, 'r, 'x) shared" where
  "goto i a s = s\<lparr>callers := (callers s)[i := (callers s ! i)\<lparr>at := a\<rparr>]\<rparr>"

text \<open>One step of caller \<open>i\<close>; \<open>None\<close> when the caller is blocked or at its end.\<close>

definition step :: "('c, 'r, 'x) world \<Rightarrow> nat \<Rightarrow> ('c, 'r, 'x) shared \<Rightarrow> ('c, 'r, 'x) shared option" where
  "step w i s =
     (if length (callers s) \<le> i then None
      else
        let c = callers s ! i;
            cp = hieraConfigsPrefix @ configPath c;
            lc = hieraLockPrefix @ configPath c
        in case at c of
             Entry \<Rightarrow>
               (let p = (if configPath c = [] then HieraConfig w else configPath c)
                in Some (s\<lparr>callers := (callers s)
                          [i := c\<lparr>configPath := p,
                                  at := (case configs c p of
                                           Some rc \<Rightarrow> Returned rc
                                         | None \<Rightarrow> FastLoad)\<rparr>]\<rparr>))
           | FastLoad \<Rightarrow>
               (case Load (sharedCache s) cp of
                  (Some (ConfigEntry conf), True) \<Rightarrow> Some (goto i (Resolved conf) s)
                | (Some (LockEntry l), True) \<Rightarrow> Some (goto i (Panicked TypeAssertion) s)
                | _ \<Rightarrow> Some (goto i NewLock s))
           | NewLock \<Rightarrow>
               (case RWMutex_Lock \<lparr>writer = False, readers = 0\<rparr> of
                  None \<Rightarrow> None
                | Some m \<Rightarrow> Some (goto i Publish (s\<lparr>mutexes := (mutexes s)(i := m)\<rparr>)))
           | Publish \<Rightarrow>
               (case LoadOrStore (sharedCache s) lc (LockEntry i) of
                  ((lv, True), m) \<Rightarrow> Some (goto i (UnlockOwn lv) s)
                | ((lv, False), m) \<Rightarrow> Some (goto i Construct (s\<lparr>sharedCache := m\<rparr>)))
           | Construct \<Rightarrow>
               (let (r, x) = config_New w (configPath c) (files s);
                    s1 = s\<lparr>files := x, newCalls := newCalls s @ [(i, configPath c, r)]\<rparr>
                in case r of
                     Inl e \<Rightarrow> Some (goto i (Panicked e) s1)
                   | Inr conf \<Rightarrow> Some (goto i (StoreConfig conf) s1))
           | StoreConfig conf \<Rightarrow>
               Some (goto i (Unlock conf)
                       (s\<lparr>sharedCache := Store (sharedCache s) cp (ConfigEntry conf)\<rparr>))
           | Unlock conf \<Rightarrow>
               (case RWMutex_Unlock (mutexes s i) of
                  Inl e \<Rightarrow> Some (goto i (Panicked e) s)
                | Inr m \<Rightarrow> Some (goto i (Resolved conf) (s\<lparr>mutexes := (mutexes s)(i := m)\<rparr>)))
           | UnlockOwn lv \<Rightarrow>
               (case RWMutex_Unlock (mutexes s i) of
                  Inl e \<Rightarrow> Some (goto i (Panicked e) s)
                | Inr m \<Rightarrow>
                    Some (goto i (case lv of LockEntry l \<Rightarrow> RLock l | ConfigEntry conf \<Rightarrow> Resolved conf)
                            (s\<lparr>mutexes := (mutexes s)(i := m)\<rparr>)))
           | RLock l \<Rightarrow>
               (case RWMutex_RLock (mutexes s l) of
                  None \<Rightarrow> None
                | Some m \<Rightarrow> Some (goto i (Reload l) (s\<lparr>mutexes := (mutexes s)(l := m)\<rparr>)))
           | Reload l \<Rightarrow>
               (case Load (sharedCache s) cp of
                  (Some (ConfigEntry conf), ok) \<Rightarrow> Some (goto i (RUnlock l conf) s)
                | _ \<Rightarrow> Some (goto i (Panicked TypeAssertion) s))
           | RUnlock l conf \<Rightarrow>
               (case RWMutex_RUnlock (mutexes s l) of
                  Inl e \<Rightarrow> Some (goto i (Panicked e) s)
                | Inr m \<Rightarrow> Some (goto i (Resolved conf) (s\<lparr>mutexes := (mutexes s)(l := m)\<rparr>)))
           | Resolved conf \<Rightarrow>
               (let rc = Resolve w i conf (moduleName c)
                in Some (s\<lparr>callers := (callers s)
                          [i := c\<lparr>configs := (configs c)(configPath c \<mapsto> rc),
                                  at := Returned rc\<rparr>]\<rparr>))
           | Returned rc \<Rightarrow> None
           | Panicked e \<Rightarrow> None)"

text \<open>
  A run under a schedule, which names the caller to step next; a caller that cannot
  step is passed over. All callers start on a fresh session with fresh invocations.
\<close>

fun run :: "('c, 'r, 'x) world \<Rightarrow> nat list \<Rightarrow> ('c, 'r, 'x) shared \<Rightarrow> ('c, 'r, 'x) shared" where
  "run w [] s = s"
| "run w (i # sched) s = (case step w i s of None \<Rightarrow> run w sched s | Some s' \<Rightarrow> run w sched s')"

definition Config_calls :: "(string \<times> string) list \<Rightarrow> 'x \<Rightarrow> ('c, 'r, 'x) shared" where
  "Config_calls cs x =
     \<lparr>sharedCache = Map.empty,
      mutexes = (\<lambda>l. \<lparr>writer = False, readers = 0\<rparr>),
      callers = map (\<lambda>(p, m). \<lparr>at = Entry, configPath = p, moduleName = m, configs = Map.empty\<rparr>) cs,
      files = x,
      newCalls = []\<rparr>"

section \<open>Notions used in the statements\<close>

text \<open>
  The message of the panic of \<^verbatim>\<open>WithKey\<close> on a given stack, a state with its name stack
  or its redaction flag replaced, and actions that leave the name stack (the redaction
  flag) as they found it, as every action does that touches them through \<^verbatim>\<open>WithKey\<close>
  (\<^verbatim>\<open>DoRedacted\<close>) only.
\<close>

definition recursiveLookup :: "string list \<Rightarrow> error" where
  "recursiveLookup stack = Errorf (''recursive lookup detected in ['' @ Join stack '', '' @ '']'')"

definition withStack :: "string list \<Rightarrow> 'x state \<Rightarrow> 'x state" where
  "withStack stack st = st\<lparr>ic := (ic st)\<lparr>nameStack := stack\<rparr>\<rparr>"

definition keepsNameStack :: "('x, 'r) action \<Rightarrow> bool" where
  "keepsNameStack actor = (\<forall>st. nameStack (ic (snd (actor st))) = nameStack (ic st))"

text \<open>Lookups that re-enter \<^verbatim>\<open>WithKey\<close>, one inside the other, with the actor innermost.\<close>

fun nestedKeys :: "key list \<Rightarrow> ('x, 'r) action \<Rightarrow> ('x, 'r) action" where
  "nestedKeys [] actor = actor"
| "nestedKeys (k # ks) actor = WithKey k (nestedKeys ks actor)"

definition withRedacted :: "bool \<Rightarrow> 'x state \<Rightarrow> 'x state" where
  "withRedacted b st = st\<lparr>ic := (ic st)\<lparr>redacted := b\<rparr>\<rparr>"

definition keepsRedacted :: "('x, 'r) action \<Rightarrow> bool" where
  "keepsRedacted doer = (\<forall>st. redacted (ic (snd (doer st))) = redacted (ic st))"

text \<open>The state after the explainer, if there is one, has received the events.\<close>

definition reported :: "event list \<Rightarrow> 'x state \<Rightarrow> 'x state" where
  "reported evs st = (if explainer (ic st) = None then st else st\<lparr>trace := trace st @ evs\<rparr>)"

text \<open>
  The state \<^verbatim>\<open>dc\<close> of \<^verbatim>\<open>Lookup\<close> runs in, and the state \<^verbatim>\<open>Lookup\<close> leaves once \<^verbatim>\<open>dc\<close> is
  done: the fields of \<^verbatim>\<open>dc\<close> are those of the receiver only when \<^verbatim>\<open>dc\<close> is the receiver.
\<close>

definition onData :: "'x state \<Rightarrow> 'x state" where
  "onData st = st\<lparr>ic := ForData (ic st)\<rparr>"

definition backTo :: "'x state \<Rightarrow> 'x state \<Rightarrow> 'x state" where
  "backTo st1 st = (if DataMode (ic st1) then st else st\<lparr>ic := ic st1\<rparr>)"

text \<open>
  The outcome \<open>res\<close> of \<^verbatim>\<open>SetMergeStrategy\<close> is that of asking \<^verbatim>\<open>merge.GetStrategy\<close> for
  the strategy \<open>n\<close> with the options \<open>os\<close>: its panic, or its strategy stored in the
  invocation.
\<close>

definition selects ::
  "(string \<Rightarrow> dmap option \<Rightarrow> error + mergeStrategy) \<Rightarrow> string \<Rightarrow> dmap option \<Rightarrow>
   'x state \<Rightarrow> (error + unit) \<times> 'x state \<Rightarrow> bool"
where
  "selects GetStrategy n os st res =
     (case GetStrategy n os of
        Inl e \<Rightarrow> fst res = Inl e \<and> strategy (ic (snd res)) = strategy (ic st)
      | Inr ms \<Rightarrow> fst res = Inr () \<and> strategy (ic (snd res)) = Some ms)"



text \<open>
  For the runs of \<^verbatim>\<open>Config\<close>: the two cache keys of a path, the calls of \<^verbatim>\<open>config.New\<close>
  for a path, the path a caller asks for, and the program counters a caller passes
  through in a run.
\<close>

definition cpOf :: "string \<Rightarrow> string" where "cpOf p = hieraConfigsPrefix @ p"
definition lcOf :: "string \<Rightarrow> string" where "lcOf p = hieraLockPrefix @ p"

definition callsOf ::
  "(nat \<times> string \<times> (error + 'c)) list \<Rightarrow> string \<Rightarrow> (nat \<times> string \<times> (error + 'c)) list"
where
  "callsOf calls p = filter (\<lambda>e. fst (snd e) = p) calls"

definition requested :: "('c, 'r, 'x) world \<Rightarrow> string \<Rightarrow> string" where
  "requested w p = (if p = [] then HieraConfig w else p)"

definition route ::
  "('c, 'r, 'x) world \<Rightarrow> nat list \<Rightarrow> ('c, 'r, 'x) shared \<Rightarrow> nat \<Rightarrow> ('c, 'r) pc list"
where
  "route w sched s j =
     remdups_adj (map (\<lambda>n. at (callers (run w (take n sched) s) ! j)) [0 ..< Suc (length sched)])"

text \<open>
  The invariant of the runs. For a path, either no lock is published, the config is
  not stored and \<^verbatim>\<open>config.New\<close> has not been called; or the lock of one caller is
  published, and that caller's position tells whether its lock is held, whether the
  config is stored and what the one call of \<^verbatim>\<open>config.New\<close> returned.
\<close>

fun stage ::
  "(string, 'c entry) syncMap \<Rightarrow> bool \<Rightarrow> (nat \<times> string \<times> (error + 'c)) list \<Rightarrow>
   string \<Rightarrow> nat \<Rightarrow> ('c, 'r) pc \<Rightarrow> bool"
where
  "stage cache wr calls p l Construct = (wr \<and> cache (cpOf p) = None \<and> calls = [])"
| "stage cache wr calls p l (StoreConfig c) =
     (wr \<and> cache (cpOf p) = None \<and> calls = [(l, p, Inr c)])"
| "stage cache wr calls p l (Unlock c) =
     (wr \<and> cache (cpOf p) = Some (ConfigEntry c) \<and> calls = [(l, p, Inr c)])"
| "stage cache wr calls p l (Resolved c) =
     (\<not> wr \<and> cache (cpOf p) = Some (ConfigEntry c) \<and> calls = [(l, p, Inr c)])"
| "stage cache wr calls p l (Returned rc) =
     (\<not> wr \<and> (\<exists>c. cache (cpOf p) = Some (ConfigEntry c) \<and> calls = [(l, p, Inr c)]))"
| "stage cache wr calls p l (Panicked e) =
     (wr \<and> cache (cpOf p) = None \<and> calls = [(l, p, Inl e)])"
| "stage cache wr calls p l _ = False"

definition path_ok :: "('c, 'r, 'x) shared \<Rightarrow> string \<Rightarrow> bool" where
  "path_ok s p =
     (case sharedCache s (lcOf p) of
        None \<Rightarrow> sharedCache s (cpOf p) = None \<and> callsOf (newCalls s) p = []
      | Some (ConfigEntry c) \<Rightarrow> False
      | Some (LockEntry l) \<Rightarrow>
          l < length (callers s) \<and> configPath (callers s ! l) = p \<and>
          stage (sharedCache s) (writer (mutexes s l)) (callsOf (newCalls s) p) p l
            (at (callers s ! l)))"

text \<open>What a caller's position tells about the cache and the locks.\<close>

fun cok ::
  "('c, 'r, 'x) world \<Rightarrow> (string, 'c entry) syncMap \<Rightarrow> (nat \<Rightarrow> RWMutex) \<Rightarrow> nat \<Rightarrow>
   ('c, 'r) caller \<Rightarrow> ('c, 'r) pc \<Rightarrow> bool"
where
  "cok w cache mx j c Entry = (configs c = Map.empty)"
| "cok w cache mx j c FastLoad = True"
| "cok w cache mx j c NewLock = True"
| "cok w cache mx j c Publish =
     (writer (mx j) \<and> cache (lcOf (configPath c)) \<noteq> Some (LockEntry j))"
| "cok w cache mx j c Construct = (cache (lcOf (configPath c)) = Some (LockEntry j))"
| "cok w cache mx j c (StoreConfig conf) = (cache (lcOf (configPath c)) = Some (LockEntry j))"
| "cok w cache mx j c (Unlock conf) = (cache (lcOf (configPath c)) = Some (LockEntry j))"
| "cok w cache mx j c (Panicked e) = (cache (lcOf (configPath c)) = Some (LockEntry j))"
| "cok w cache mx j c (UnlockOwn lv) =
     (cache (lcOf (configPath c)) = Some lv \<and> lv \<noteq> LockEntry j \<and> writer (mx j))"
| "cok w cache mx j c (RLock l) = (cache (lcOf (configPath c)) = Some (LockEntry l))"
| "cok w cache mx j c (Reload l) =
     (cache (lcOf (configPath c)) = Some (LockEntry l) \<and> \<not> writer (mx l))"
| "cok w cache mx j c (RUnlock l conf) =
     (cache (lcOf (configPath c)) = Some (LockEntry l) \<and>
      cache (cpOf (configPath c)) = Some (ConfigEntry conf))"
| "cok w cache mx j c (Resolved conf) = (cache (cpOf (configPath c)) = Some (ConfigEntry conf))"
| "cok w cache mx j c (Returned rc) =
     (\<exists>conf. cache (cpOf (configPath c)) = Some (ConfigEntry conf) \<and>
             rc = Resolve w j conf (moduleName c))"

definition caller_ok :: "('c, 'r, 'x) world \<Rightarrow> ('c, 'r, 'x) shared \<Rightarrow> nat \<Rightarrow> bool" where
  "caller_ok w s j = cok w (sharedCache s) (mutexes s) j (callers s ! j) (at (callers s ! j))"

text \<open>The read count of a lock is the number of callers between its \<^verbatim>\<open>RLock\<close> and \<^verbatim>\<open>RUnlock\<close>.\<close>

fun reading :: "nat \<Rightarrow> ('c, 'r) pc \<Rightarrow> bool" where
  "reading l (Reload l') = (l' = l)"
| "reading l (RUnlock l' c) = (l' = l)"
| "reading l _ = False"

definition readers_ok :: "('c, 'r, 'x) shared \<Rightarrow> nat \<Rightarrow> bool" where
  "readers_ok s l = (readers (mutexes s l) = length (filter (\<lambda>c. reading l (at c)) (callers s)))"

definition flight_inv :: "('c, 'r, 'x) world \<Rightarrow> ('c, 'r, 'x) shared \<Rightarrow> bool" where
  "flight_inv w s = ((\<forall>p. path_ok s p) \<and> (\<forall>j < length (callers s). caller_ok w s j) \<and>
              (\<forall>l. readers_ok s l))"

text \<open>
  The callers of a state are those the run started with; every recorded result is a
  result of \<^verbatim>\<open>config.New\<close>; \<^verbatim>\<open>config.New\<close> returns a config for every path asked for.
\<close>

definition callers_of ::
  "('c, 'r, 'x) world \<Rightarrow> (string \<times> string) list \<Rightarrow> ('c, 'r, 'x) shared \<Rightarrow> bool"
where
  "callers_of w cs s =
     (length (callers s) = length cs \<and>
      (\<forall>j < length cs.
         moduleName (callers s ! j) = snd (cs ! j) \<and>
         configPath (callers s ! j) =
           (if at (callers s ! j) = Entry then fst (cs ! j) else requested w (fst (cs ! j)))))"

definition log_ok :: "('c, 'r, 'x) world \<Rightarrow> ('c, 'r, 'x) shared \<Rightarrow> bool" where
  "log_ok w s = (\<forall>e \<in> set (newCalls s). \<exists>x. snd (snd e) = fst (config_New w (fst (snd e)) x))"

definition parses :: "('c, 'r, 'x) world \<Rightarrow> (string \<times> string) list \<Rightarrow> bool" where
  "parses w cs = (\<forall>c \<in> set cs. \<forall>x e. fst (config_New w (requested w (fst c)) x) \<noteq> Inl e)"

text \<open>The steps a caller has left at most, summed over the callers.\<close>

fun rank :: "('c, 'r) pc \<Rightarrow> nat" where
  "rank Entry = 9"
| "rank FastLoad = 8"
| "rank NewLock = 7"
| "rank Publish = 6"
| "rank (UnlockOwn lv) = 5"
| "rank (RLock l) = 4"
| "rank (Reload l) = 3"
| "rank (RUnlock l c) = 2"
| "rank Construct = 4"
| "rank (StoreConfig c) = 3"
| "rank (Unlock c) = 2"
| "rank (Resolved c) = 1"
| "rank (Returned rc) = 0"
| "rank (Panicked e) = 0"

definition work :: "('c, 'r, 'x) shared \<Rightarrow> nat" where
  "work s = sum_list (map (\<lambda>c. rank (at c)) (callers s))"

section \<open>Sample collaborators\<close>

text \<open>
  Concrete explainers, providers, sessions and library functions, on which the
  theorems are evaluated. The external state counts the calls of the provider.
\<close>

definition tracing :: "explainer option" where
  "tracing = Some \<lparr>Options = False, OnlyOptions = False\<rparr>"

definition startWith :: "explainer option \<Rightarrow> nat state" where
  "startWith ex = \<lparr>ic = newInvocation (MapScope []) ex, trace = [], ext = 0\<rparr>"

definition keyOf :: "string \<Rightarrow> key" where
  "keyOf s = \<lparr>Source = s, Root = s, Parts = []\<rparr>"

definition optionsKey :: key where
  "optionsKey = \<lparr>Source = ''lookup_options.a'', Root = ''lookup_options'', Parts = [String ''a'']\<rparr>"

definition found :: "(nat, dvalue option) action" where
  "found st = (Inr (Some (Integer 1)), st)"

definition failing :: "(nat, unit) action" where
  "failing st = (Inl (Failure ''provider''), st)"

definition counting :: "location list \<Rightarrow> nat dataProvider" where
  "counting locs =
     \<lparr>FullName = ''data'', Locations = locs,
      LookupKey = (\<lambda>k loc st. (Inr (Some (String ''v'')), st\<lparr>ext := Suc (ext st)\<rparr>))\<rparr>"

definition missing :: location where
  "missing = \<lparr>Path = ''absent.yaml'', Exists = False\<rparr>"

definition present :: location where
  "present = \<lparr>Path = ''common.yaml'', Exists = True\<rparr>"

text \<open>
  Modelled from the spec: the merge strategy \<^verbatim>\<open>first\<close> of the package \<^verbatim>\<open>merge\<close>, which
  is not among the sources at hand: "evaluate candidates in order, return the first
  non-undefined result; short-circuits".
\<close>

fun firstFound :: "'a list \<Rightarrow> ('a \<Rightarrow> ('x, dvalue option) action) \<Rightarrow> ('x, dvalue option) action" where
  "firstFound [] produce st = (Inr None, st)"
| "firstFound (c # cs) produce st =
     (case produce c st of
        (Inl e, st1) \<Rightarrow> (Inl e, st1)
      | (Inr None, st1) \<Rightarrow> firstFound cs produce st1
      | (Inr (Some v), st1) \<Rightarrow> (Inr (Some v), st1))"

definition parseType :: "string \<Rightarrow> error + dgo_type" where
  "parseType s = (if s = ''sensitive'' then Inr Sensitive else Inr (NamedType s))"

definition countingSession :: "nat session" where
  "countingSession =
     \<lparr>TopProvider = Some (\<lambda>options r st. (Inr (Some (String r)), st\<lparr>ext := Suc (ext st)\<rparr>)),
      ParseType = parseType\<rparr>"

definition emptySession :: "nat session" where
  "emptySession =
     \<lparr>TopProvider = Some (\<lambda>options r st. (Inr None, st)),
      ParseType = parseType\<rparr>"

definition plainInterpolate :: "dvalue \<Rightarrow> bool \<Rightarrow> (nat, dvalue option) action" where
  "plainInterpolate v allowMethods st = (Inr (Some v), st)"

definition plainDig :: "key \<Rightarrow> dvalue option \<Rightarrow> (nat, dvalue option) action" where
  "plainDig k v st = (Inr v, st)"

definition knownStrategy :: "string \<Rightarrow> dmap option \<Rightarrow> error + mergeStrategy" where
  "knownStrategy n os =
     (if n \<in> set [''first'', ''unique'', ''hash'', ''deep'']
      then Inr \<lparr>Name = n, MergeOptions = os\<rparr>
      else Inl (Errorf (''unknown merge strategy '' @ n)))"

definition deepOptions :: dmap where
  "deepOptions =
     [(String ''merge'',
       Map [(String ''strategy'', String ''deep''), (String ''knockout_prefix'', String ''--'')])]"

text \<open>
  A \<^verbatim>\<open>GetStrategy\<close> that knows every name and hands back what it was asked for, and
  lookup options whose \<^verbatim>\<open>merge\<close> entry is a map without \<^verbatim>\<open>strategy\<close>.
\<close>

definition anyStrategy :: "string \<Rightarrow> dmap option \<Rightarrow> error + mergeStrategy" where
  "anyStrategy n os = Inr \<lparr>Name = n, MergeOptions = os\<rparr>"

definition prefixOnly :: dmap where
  "prefixOnly = [(String ''merge'', Map [(String ''knockout_prefix'', String ''--'')])]"






text \<open>
  A world in which \<^verbatim>\<open>config.New\<close> counts its calls in the files, and one in which it
  panics; callers of one path, and schedules for them.
\<close>

definition parsingWorld :: "(string, string \<times> string, nat) world" where
  "parsingWorld =
     \<lparr>config_New = (\<lambda>p x. (Inr (''parsed '' @ p), Suc x)),
      Resolve = (\<lambda>i conf m. (conf, m)),
      HieraConfig = ''hiera.yaml''\<rparr>"

definition failingWorld :: "(string, string \<times> string, nat) world" where
  "failingWorld = parsingWorld\<lparr>config_New := (\<lambda>p x. (Inl (Failure ''unreadable''), Suc x))\<rparr>"

definition threeCallers :: "(string \<times> string) list" where
  "threeCallers = [(''hiera.yaml'', ''m0''), ([], ''m1''), (''hiera.yaml'', ''m2'')]"

definition raced :: "nat list" where
  "raced = [0, 0, 0, 1, 1, 1, 0, 1, 1, 1, 0, 0, 2, 2, 0, 1, 1, 1, 1, 0, 2]"

definition twoCallers :: "(string \<times> string) list" where
  "twoCallers = [(''hiera.yaml'', ''m0''), (''hiera.yaml'', ''m1'')]"

definition lateLoad :: "nat list" where
  "lateLoad = [1, 0, 0, 0, 0, 0, 0, 0, 0, 1, 1]"

definition stalled :: "nat list" where
  "stalled = raced @ [2, 2]"

section \<open>Recursion detection\<close>

lemma withStack_same [simp]: "withStack (nameStack (ic st)) st = st"
  by (simp add: withStack_def)

lemma withStack_twice [simp]: "withStack a (withStack b st) = withStack a st"
  by (simp add: withStack_def)

lemma nameStack_withStack [simp]: "nameStack (ic (withStack a st)) = a"
  by (simp add: withStack_def)

lemma WithKey_cyclic:
  "Source k \<in> set (nameStack (ic st)) \<Longrightarrow>
   WithKey k actor st = (Inl (recursiveLookup (nameStack (ic st))), st)"
  by (simp add: WithKey_def recursiveLookup_def)

lemma WithKey_runs:
  assumes "Source k \<notin> set (nameStack (ic st))" and "keepsNameStack actor"
  shows "WithKey k actor st =
         (fst (actor (withStack (nameStack (ic st) @ [Source k]) st)),
          withStack (nameStack (ic st)) (snd (actor (withStack (nameStack (ic st) @ [Source k]) st))))"
proof -
  let ?st1 = "withStack (nameStack (ic st) @ [Source k]) st"
  obtain r st2 where a: "actor ?st1 = (r, st2)" by (cases "actor ?st1")
  from assms(2) a have s2: "nameStack (ic st2) = nameStack (ic st) @ [Source k]"
    unfolding keepsNameStack_def by (metis nameStack_withStack snd_conv)
  show ?thesis
    using assms(1) a s2 by (simp add: WithKey_def withStack_def Let_def)
qed

lemma WithKey_keeps:
  assumes "keepsNameStack actor"
  shows "keepsNameStack (WithKey k actor)"
  unfolding keepsNameStack_def
proof
  fix st :: "'a state"
  show "nameStack (ic (snd (WithKey k actor st))) = nameStack (ic st)"
  proof (cases "Source k \<in> set (nameStack (ic st))")
    case True
    then show ?thesis by (simp add: WithKey_cyclic)
  next
    case False
    then show ?thesis by (simp add: WithKey_runs [OF False assms])
  qed
qed

lemma nestedKeys_keeps: "keepsNameStack actor \<Longrightarrow> keepsNameStack (nestedKeys ks actor)"
  by (induction ks) (simp_all add: WithKey_keeps)

lemma nestedKeys_distinct:
  "distinct (nameStack (ic st) @ map Source ks) \<Longrightarrow> keepsNameStack actor \<Longrightarrow>
   nestedKeys ks actor st =
     (fst (actor (withStack (nameStack (ic st) @ map Source ks) st)),
      withStack (nameStack (ic st)) (snd (actor (withStack (nameStack (ic st) @ map Source ks) st))))"
proof (induction ks arbitrary: st)
  case Nil
  from Nil.prems(2) have "nameStack (ic (snd (actor st))) = nameStack (ic st)"
    by (simp add: keepsNameStack_def)
  then have "withStack (nameStack (ic st)) (snd (actor st)) = snd (actor st)"
    by (metis withStack_same)
  then show ?case by simp
next
  case (Cons k ks)
  let ?st1 = "withStack (nameStack (ic st) @ [Source k]) st"
  from Cons.prems(1) have notin: "Source k \<notin> set (nameStack (ic st))" by auto
  from Cons.prems(1) have d: "distinct (nameStack (ic ?st1) @ map Source ks)" by auto
  have ih: "nestedKeys ks actor ?st1 =
     (fst (actor (withStack (nameStack (ic ?st1) @ map Source ks) ?st1)),
      withStack (nameStack (ic ?st1)) (snd (actor (withStack (nameStack (ic ?st1) @ map Source ks) ?st1))))"
    by (rule Cons.IH [OF d Cons.prems(2)])
  have k: "keepsNameStack (nestedKeys ks actor)" by (rule nestedKeys_keeps [OF Cons.prems(2)])
  show ?case
    by (simp add: WithKey_runs [OF notin k] ih)
qed

lemma nestedKeys_cyclic:
  "distinct (nameStack (ic st)) \<Longrightarrow> \<not> distinct (nameStack (ic st) @ map Source ks) \<Longrightarrow>
   \<exists>stack. nestedKeys ks actor st = (Inl (recursiveLookup stack), st)"
proof (induction ks arbitrary: st)
  case Nil
  then show ?case by simp
next
  case (Cons k ks)
  show ?case
  proof (cases "Source k \<in> set (nameStack (ic st))")
    case True
    then show ?thesis by (auto simp: WithKey_cyclic)
  next
    case False
    let ?st1 = "withStack (nameStack (ic st) @ [Source k]) st"
    from False Cons.prems(1) have d1: "distinct (nameStack (ic ?st1))" by simp
    from Cons.prems(2) have d2: "\<not> distinct (nameStack (ic ?st1) @ map Source ks)" by simp
    from Cons.IH [OF d1 d2] obtain stack where
      n: "nestedKeys ks actor ?st1 = (Inl (recursiveLookup stack), ?st1)" by blast
    have "WithKey k (nestedKeys ks actor) st = (Inl (recursiveLookup stack), st)"
      using False n by (simp add: WithKey_def withStack_def Let_def)
    then show ?thesis by auto
  qed
qed

text \<open>
  C2. \<^verbatim>\<open>WithKey\<close> panics with the recursive-lookup error exactly when the source of the
  key is on the name stack, and then neither runs the actor nor changes the state.
  Otherwise it runs the actor on the stack with the source pushed, which has no source
  twice if the stack had none, and hands on what the actor returns or panics with;
  the stack is afterwards what it was before the call. Lookups nested to any depth
  whose sources repeat end in the recursive-lookup error with the state restored,
  whatever the innermost actor is; nested lookups with distinct sources run the actor
  on the stack of all of them.
\<close>

theorem WithKey_recursion_detection:
  fixes actor :: "('x, 'r) action"
  shows
    "(Source k \<in> set (nameStack (ic st)) \<longrightarrow>
        WithKey k actor st = (Inl (recursiveLookup (nameStack (ic st))), st)) \<and>
     (Source k \<notin> set (nameStack (ic st)) \<and> keepsNameStack actor \<longrightarrow>
        WithKey k actor st =
          (fst (actor (withStack (nameStack (ic st) @ [Source k]) st)),
           withStack (nameStack (ic st))
             (snd (actor (withStack (nameStack (ic st) @ [Source k]) st))))) \<and>
     (Source k \<notin> set (nameStack (ic st)) \<and> distinct (nameStack (ic st)) \<longrightarrow>
        distinct (nameStack (ic (withStack (nameStack (ic st) @ [Source k]) st)))) \<and>
     (keepsNameStack actor \<longrightarrow> keepsNameStack (WithKey k actor)) \<and>
     (distinct (nameStack (ic st)) \<and> \<not> distinct (nameStack (ic st) @ map Source ks) \<longrightarrow>
        (\<exists>stack. nestedKeys ks actor st = (Inl (recursiveLookup stack), st))) \<and>
     (distinct (nameStack (ic st) @ map Source ks) \<and> keepsNameStack actor \<longrightarrow>
        nestedKeys ks actor st =
          (fst (actor (withStack (nameStack (ic st) @ map Source ks) st)),
           withStack (nameStack (ic st))
             (snd (actor (withStack (nameStack (ic st) @ map Source ks) st)))))"
proof -
  have a: "Source k \<in> set (nameStack (ic st)) \<longrightarrow>
        WithKey k actor st = (Inl (recursiveLookup (nameStack (ic st))), st)"
    by (simp add: WithKey_cyclic)
  have b: "Source k \<notin> set (nameStack (ic st)) \<and> keepsNameStack actor \<longrightarrow>
        WithKey k actor st =
          (fst (actor (withStack (nameStack (ic st) @ [Source k]) st)),
           withStack (nameStack (ic st))
             (snd (actor (withStack (nameStack (ic st) @ [Source k]) st))))"
    using WithKey_runs by blast
  have c: "Source k \<notin> set (nameStack (ic st)) \<and> distinct (nameStack (ic st)) \<longrightarrow>
        distinct (nameStack (ic (withStack (nameStack (ic st) @ [Source k]) st)))"
    by simp
  have d: "keepsNameStack actor \<longrightarrow> keepsNameStack (WithKey k actor)"
    by (simp add: WithKey_keeps)
  have e: "distinct (nameStack (ic st)) \<and> \<not> distinct (nameStack (ic st) @ map Source ks) \<longrightarrow>
        (\<exists>stack. nestedKeys ks actor st = (Inl (recursiveLookup stack), st))"
    using nestedKeys_cyclic by blast
  have f: "distinct (nameStack (ic st) @ map Source ks) \<and> keepsNameStack actor \<longrightarrow>
        nestedKeys ks actor st =
          (fst (actor (withStack (nameStack (ic st) @ map Source ks) st)),
           withStack (nameStack (ic st))
             (snd (actor (withStack (nameStack (ic st) @ map Source ks) st))))"
    using nestedKeys_distinct by blast
  from a b c d e f show ?thesis by blast
qed

theorem WithKey_recursion_detection_witness:
  "keepsNameStack found \<and>
   WithKey (keyOf ''a'') found (startWith None) = (Inr (Some (Integer 1)), startWith None) \<and>
   WithKey (keyOf ''a'') found (withStack [''b'', ''a''] (startWith None)) =
     (Inl (Errorf ''recursive lookup detected in [b, a]''),
      withStack [''b'', ''a''] (startWith None)) \<and>
   (\<exists>stack. nestedKeys [keyOf ''a'', keyOf ''b'', keyOf ''a''] found (startWith None) =
      (Inl (recursiveLookup stack), startWith None)) \<and>
   nestedKeys [keyOf ''a'', keyOf ''b'', keyOf ''a''] found (startWith None) =
      (Inl (Errorf ''recursive lookup detected in [a, b]''), startWith None) \<and>
   nestedKeys [keyOf ''a'', keyOf ''b''] found (startWith None) =
      (Inr (Some (Integer 1)), startWith None)"
proof -
  have k: "keepsNameStack found"
    by (simp add: keepsNameStack_def found_def)
  have n: "nameStack (ic (startWith None)) = []"
    by (simp add: startWith_def newInvocation_def)
  have w1: "WithKey (keyOf ''a'') found (startWith None) =
      (Inr (Some (Integer 1)), startWith None)"
    using WithKey_recursion_detection
      [where k = "keyOf ''a''" and st = "startWith None" and actor = found and ks = "[]"] k n
    by (simp add: keyOf_def found_def withStack_def startWith_def newInvocation_def)
  have w2: "WithKey (keyOf ''a'') found (withStack [''b'', ''a''] (startWith None)) =
     (Inl (Errorf ''recursive lookup detected in [b, a]''),
      withStack [''b'', ''a''] (startWith None))"
    using WithKey_recursion_detection
      [where k = "keyOf ''a''" and st = "withStack [''b'', ''a''] (startWith None)"
        and actor = found and ks = "[]"]
    by (simp add: keyOf_def recursiveLookup_def)
  have w3: "\<exists>stack. nestedKeys [keyOf ''a'', keyOf ''b'', keyOf ''a''] found (startWith None) =
      (Inl (recursiveLookup stack), startWith None)"
    using WithKey_recursion_detection
      [where k = "keyOf ''a''" and st = "startWith None" and actor = found
        and ks = "[keyOf ''a'', keyOf ''b'', keyOf ''a'']"] n
    by (simp add: keyOf_def)
  have w4: "nestedKeys [keyOf ''a'', keyOf ''b'', keyOf ''a''] found (startWith None) =
      (Inl (Errorf ''recursive lookup detected in [a, b]''), startWith None)"
    by (simp add: WithKey_def keyOf_def startWith_def newInvocation_def Let_def)
  have w5: "nestedKeys [keyOf ''a'', keyOf ''b''] found (startWith None) =
      (Inr (Some (Integer 1)), startWith None)"
    using WithKey_recursion_detection
      [where k = "keyOf ''a''" and st = "startWith None" and actor = found
        and ks = "[keyOf ''a'', keyOf ''b'']"] k n
    by (simp add: keyOf_def found_def withStack_def startWith_def newInvocation_def)
  from k w1 w2 w3 w4 w5 show ?thesis by blast
qed

section \<open>Redaction\<close>

lemma withRedacted_same [simp]: "withRedacted (redacted (ic st)) st = st"
  by (simp add: withRedacted_def)

lemma redacted_withRedacted [simp]: "redacted (ic (withRedacted b st)) = b"
  by (simp add: withRedacted_def)

lemma DoRedacted_set:
  "redacted (ic st) \<Longrightarrow> DoRedacted doer st = doer st"
  by (simp add: DoRedacted_def)

lemma DoRedacted_clear:
  "\<not> redacted (ic st) \<Longrightarrow>
   DoRedacted doer st =
     (fst (doer (withRedacted True st)), withRedacted False (snd (doer (withRedacted True st))))"
  by (simp add: DoRedacted_def withRedacted_def split: prod.splits)

lemma DoRedacted_keeps:
  assumes "keepsRedacted doer"
  shows "keepsRedacted (DoRedacted doer)"
  unfolding keepsRedacted_def
proof
  fix st :: "'a state"
  show "redacted (ic (snd (DoRedacted doer st))) = redacted (ic st)"
  proof (cases "redacted (ic st)")
    case True
    with assms show ?thesis by (simp add: DoRedacted_set keepsRedacted_def)
  next
    case False
    then show ?thesis by (simp add: DoRedacted_clear)
  qed
qed

text \<open>
  C10. \<^verbatim>\<open>DoRedacted\<close> runs the doer with the redaction flag set. Entered with the flag
  clear, it leaves the flag clear, also when the doer panics; entered with the flag
  set, it leaves the state as the doer left it. A doer that keeps the flag (as one
  does that changes it through \<^verbatim>\<open>DoRedacted\<close> only) makes \<^verbatim>\<open>DoRedacted\<close> keep it, at
  any depth of nesting.
\<close>

theorem DoRedacted_flag:
  fixes doer :: "('x, 'r) action"
  shows
    "fst (DoRedacted doer st) = fst (doer (withRedacted True st)) \<and>
     snd (DoRedacted doer st) =
       (if redacted (ic st) then snd (doer (withRedacted True st))
        else withRedacted False (snd (doer (withRedacted True st)))) \<and>
     (\<not> redacted (ic st) \<longrightarrow> \<not> redacted (ic (snd (DoRedacted doer st)))) \<and>
     (keepsRedacted doer \<longrightarrow>
        redacted (ic (snd (DoRedacted doer st))) = redacted (ic st) \<and>
        keepsRedacted (DoRedacted doer) \<and>
        keepsRedacted (DoRedacted (DoRedacted doer)))"
proof (cases "redacted (ic st)")
  case True
  then have same: "withRedacted True st = st"
    by (metis withRedacted_same)
  show ?thesis
    using True by (auto simp: DoRedacted_set same DoRedacted_keeps) (simp add: keepsRedacted_def)
next
  case False
  then show ?thesis
    by (auto simp: DoRedacted_clear DoRedacted_keeps)
qed

theorem DoRedacted_flag_witness:
  "keepsRedacted failing \<and>
   DoRedacted failing (startWith None) = (Inl (Failure ''provider''), startWith None) \<and>
   \<not> redacted (ic (snd (DoRedacted failing (startWith None)))) \<and>
   redacted (ic (snd (DoRedacted (DoRedacted failing) (withRedacted True (startWith None)))))"
proof -
  have k: "keepsRedacted failing"
    by (simp add: keepsRedacted_def failing_def)
  have c: "\<not> redacted (ic (startWith None))"
    by (simp add: startWith_def newInvocation_def)
  have "DoRedacted failing (startWith None) = (Inl (Failure ''provider''), startWith None)"
    using DoRedacted_flag [where doer = failing and st = "startWith None"] c
    by (simp add: failing_def prod_eq_iff withRedacted_def)
  moreover have "\<not> redacted (ic (snd (DoRedacted failing (startWith None))))"
    using DoRedacted_flag [where doer = failing and st = "startWith None"] c by simp
  moreover have
    "redacted (ic (snd (DoRedacted (DoRedacted failing) (withRedacted True (startWith None)))))"
  proof -
    have kk: "keepsRedacted (DoRedacted failing)"
      using DoRedacted_flag [where doer = failing and st = "startWith None"] k by blast
    have "redacted (ic (snd (DoRedacted (DoRedacted failing) (withRedacted True (startWith None))))) =
          redacted (ic (withRedacted True (startWith None)))"
      using DoRedacted_flag
        [where doer = "DoRedacted failing" and st = "withRedacted True (startWith None)"] kk
      by blast
    then show ?thesis by simp
  qed
  ultimately show ?thesis using k by simp
qed

section \<open>The lookup\<close>

lemma framed_report:
  "framed ev (\<lambda>s. (r, report ev2 s)) st = (r, reported [ev, ev2, Pop] st)"
  by (simp add: framed_def report_def reported_def)

lemma DataMode_ForData: "DataMode (ForData c)"
  by (simp add: ForData_def DataMode_def)

text \<open>
  C3. For a key with the root \<^verbatim>\<open>lookup_options\<close>, \<^verbatim>\<open>Lookup\<close> returns undefined; the
  explainer, if there is one, receives the invalid-key frame, not-found for the key,
  and the pop, and nothing else changes. The outcome is the same for every session,
  top provider, interpolation and dig: none of them is called.
\<close>

theorem Lookup_lookup_options:
  "Root k = ''lookup_options'' \<Longrightarrow>
   Lookup s Interpolate Dig k options st =
     (Inr None, reported [PushInvalidKey k, AcceptNotFound k, Pop] st) \<and>
   Lookup s Interpolate Dig k options st = Lookup s' Interpolate' Dig' k options' st"
  by (simp add: Lookup_def WithInvalidKey_def ReportNotFound_def framed_report)

theorem Lookup_lookup_options_witness:
  "Root optionsKey = ''lookup_options'' \<and>
   Lookup countingSession plainInterpolate plainDig optionsKey None (startWith tracing) =
     (Inr None,
      (startWith tracing)\<lparr>trace := [PushInvalidKey optionsKey, AcceptNotFound optionsKey, Pop]\<rparr>) \<and>
   Lookup countingSession plainInterpolate plainDig optionsKey None (startWith None) =
     (Inr None, startWith None)"
proof -
  have r: "Root optionsKey = ''lookup_options''" by (simp add: optionsKey_def)
  show ?thesis
    using r
      Lookup_lookup_options [OF r, where s = countingSession and Interpolate = plainInterpolate
        and Dig = plainDig and options = None and st = "startWith tracing"]
      Lookup_lookup_options [OF r, where s = countingSession and Interpolate = plainInterpolate
        and Dig = plainDig and options = None and st = "startWith None"]
    by (simp add: reported_def startWith_def tracing_def newInvocation_def)
qed

text \<open>
  C4, as amended. For a key with another root, \<^verbatim>\<open>Lookup\<close> calls the top provider of the
  session with the options and the root of the key. A panic of the provider is the
  panic of \<^verbatim>\<open>Lookup\<close>. An undefined result is returned as it is, with the state as the
  provider left it: \<^verbatim>\<open>Lookup\<close> reports nothing of its own. A defined value is
  interpolated and then dug into by an invocation in data mode, and the result of the
  dig is returned; the fields of the receiver change only when it was in data mode
  already.
\<close>

theorem Lookup_top_provider:
  assumes "Root k \<noteq> ''lookup_options''" and "TopProvider s = Some provider"
  shows
    "(provider options (Root k) st = (Inl e, st1) \<longrightarrow>
        Lookup s Interpolate Dig k options st = (Inl e, st1)) \<and>
     (provider options (Root k) st = (Inr None, st1) \<longrightarrow>
        Lookup s Interpolate Dig k options st = (Inr None, st1)) \<and>
     (provider options (Root k) st = (Inr (Some v), st1) \<and>
      Interpolate v True (onData st1) = (Inl e, st2) \<longrightarrow>
        Lookup s Interpolate Dig k options st = (Inl e, backTo st1 st2)) \<and>
     (provider options (Root k) st = (Inr (Some v), st1) \<and>
      Interpolate v True (onData st1) = (Inr v2, st2) \<and> Dig k v2 st2 = (r3, st3) \<longrightarrow>
        DataMode (ic (onData st1)) \<and>
        Lookup s Interpolate Dig k options st = (r3, backTo st1 st3))"
  using assms
  by (simp add: Lookup_def Let_def onData_def backTo_def DataMode_ForData)

theorem Lookup_top_provider_witness:
  "Root (keyOf ''a'') \<noteq> ''lookup_options'' \<and>
   Lookup countingSession plainInterpolate plainDig (keyOf ''a'') None (startWith tracing) =
     (Inr (Some (String ''a'')), (startWith tracing)\<lparr>ext := 1\<rparr>) \<and>
   Lookup emptySession plainInterpolate plainDig (keyOf ''a'') None (startWith tracing) =
     (Inr None, startWith tracing)"
proof -
  have r: "Root (keyOf ''a'') \<noteq> ''lookup_options''" by (simp add: keyOf_def)
  have t1: "TopProvider countingSession =
      Some (\<lambda>options r st. (Inr (Some (String r)), st\<lparr>ext := Suc (ext st)\<rparr>))"
    by (simp add: countingSession_def)
  have t2: "TopProvider emptySession = Some (\<lambda>options r st. (Inr None, st))"
    by (simp add: emptySession_def)
  have a: "Lookup countingSession plainInterpolate plainDig (keyOf ''a'') None (startWith tracing) =
     (Inr (Some (String ''a'')), (startWith tracing)\<lparr>ext := 1\<rparr>)"
    using Lookup_top_provider [OF r t1, where Interpolate = plainInterpolate and Dig = plainDig
        and options = None and st = "startWith tracing" and v = "String ''a''"
        and ?v2.0 = "Some (String ''a'')" and ?r3.0 = "Inr (Some (String ''a''))"
        and ?st1.0 = "(startWith tracing)\<lparr>ext := 1\<rparr>"
        and ?st2.0 = "onData ((startWith tracing)\<lparr>ext := 1\<rparr>)"
        and ?st3.0 = "onData ((startWith tracing)\<lparr>ext := 1\<rparr>)"]
    by (simp add: keyOf_def plainInterpolate_def plainDig_def backTo_def onData_def DataMode_def
        startWith_def newInvocation_def)
  have b: "Lookup emptySession plainInterpolate plainDig (keyOf ''a'') None (startWith tracing) =
     (Inr None, startWith tracing)"
    using Lookup_top_provider [OF r t2, where Interpolate = plainInterpolate and Dig = plainDig
        and options = None and st = "startWith tracing" and ?st1.0 = "startWith tracing"]
    by simp
  from r a b show ?thesis by simp
qed

text \<open>
  The claim C4 as stated has \<^verbatim>\<open>Lookup\<close> report not-found when the provider returns
  undefined. With an explainer attached and a provider that finds nothing, the
  explainer receives no not-found event.
\<close>

theorem Lookup_undefined_report_counterexample:
  "Root (keyOf ''a'') \<noteq> ''lookup_options'' \<and>
   explainer (ic (startWith tracing)) \<noteq> None \<and>
   fst (Lookup emptySession plainInterpolate plainDig (keyOf ''a'') None (startWith tracing)) =
     Inr None \<and>
   AcceptNotFound (keyOf ''a'') \<notin>
     set (trace (snd (Lookup emptySession plainInterpolate plainDig (keyOf ''a'') None
       (startWith tracing))))"
  by (simp add: Lookup_def emptySession_def keyOf_def startWith_def tracing_def newInvocation_def)

section \<open>Providers and their locations\<close>

text \<open>
  C6. At a location that does not exist, the provider is invoked without a call of its
  \<^verbatim>\<open>LookupKey\<close> (the outcome is the same whatever \<^verbatim>\<open>LookupKey\<close> is): the result is
  undefined, not a panic, and the explainer, if there is one, receives the location
  frame, location-not-found and the pop.
\<close>

theorem invokeWithLocation_missing:
  "\<not> Exists l \<Longrightarrow>
   invokeWithLocation dh (Some l) k st =
     (Inr None, reported [PushLocation l, AcceptLocationNotFound, Pop] st) \<and>
   invokeWithLocation dh (Some l) k st = invokeWithLocation (dh\<lparr>LookupKey := other\<rparr>) (Some l) k st"
  by (simp add: invokeWithLocation_def WithLocation_def ReportLocationNotFound_def framed_report)

theorem invokeWithLocation_missing_witness:
  "\<not> Exists missing \<and>
   invokeWithLocation (counting [missing]) (Some missing) (keyOf ''a'') (startWith tracing) =
     (Inr None,
      (startWith tracing)\<lparr>trace := [PushLocation missing, AcceptLocationNotFound, Pop]\<rparr>) \<and>
   firstFound [missing, present]
     (\<lambda>l. invokeWithLocation (counting [missing, present]) (Some l) (keyOf ''a'')) (startWith None) =
     (Inr (Some (String ''v'')), (startWith None)\<lparr>ext := 1\<rparr>)"
proof -
  have m: "\<not> Exists missing" by (simp add: missing_def)
  have a: "invokeWithLocation (counting [missing]) (Some missing) (keyOf ''a'') (startWith tracing) =
     (Inr None,
      (startWith tracing)\<lparr>trace := [PushLocation missing, AcceptLocationNotFound, Pop]\<rparr>)"
    using invokeWithLocation_missing [OF m, where dh = "counting [missing]" and k = "keyOf ''a''"
        and st = "startWith tracing"]
    by (simp add: reported_def startWith_def tracing_def newInvocation_def)
  have b: "invokeWithLocation (counting [missing, present]) (Some missing) (keyOf ''a'') (startWith None) =
     (Inr None, startWith None)"
    using invokeWithLocation_missing [OF m, where dh = "counting [missing, present]"
        and k = "keyOf ''a''" and st = "startWith None"]
    by (simp add: reported_def startWith_def newInvocation_def)
  have c: "invokeWithLocation (counting [missing, present]) (Some present) (keyOf ''a'') (startWith None) =
     (Inr (Some (String ''v'')), (startWith None)\<lparr>ext := 1\<rparr>)"
    by (simp add: invokeWithLocation_def WithLocation_def framed_def counting_def present_def
        startWith_def newInvocation_def)
  from m a b c show ?thesis by simp
qed

text \<open>
  C5, as amended. Inside the frame of the data provider, \<^verbatim>\<open>MergeLocations\<close> makes one
  call of \<^verbatim>\<open>LookupKey\<close> with no location when the provider has no locations; with one
  location it makes one call of \<^verbatim>\<open>LookupKey\<close> with that location, inside the frame of
  the location, when the location exists, and no call when it does not; with two or
  more it hands the locations to the merge strategy. With fewer than two locations the
  merge strategy has no part in the outcome.
\<close>

theorem MergeLocations_dispatch:
  "(Locations dh = [] \<longrightarrow>
      MergeLocations k dh MergeLookup = WithDataProvider dh (LookupKey dh k None)) \<and>
   (Locations dh = [l] \<and> Exists l \<longrightarrow>
      MergeLocations k dh MergeLookup =
        WithDataProvider dh (WithLocation l (LookupKey dh k (Some l)))) \<and>
   (Locations dh = [l] \<and> \<not> Exists l \<longrightarrow>
      MergeLocations k dh MergeLookup =
        WithDataProvider dh
          (\<lambda>st. (Inr None, reported [PushLocation l, AcceptLocationNotFound, Pop] st))) \<and>
   (2 \<le> length (Locations dh) \<longrightarrow>
      MergeLocations k dh MergeLookup =
        WithDataProvider dh
          (MergeLookup (Locations dh) (\<lambda>l. invokeWithLocation dh (Some l) k)))"
proof -
  have a: "Locations dh = [] \<longrightarrow>
      MergeLocations k dh MergeLookup = WithDataProvider dh (LookupKey dh k None)"
    by (simp add: MergeLocations_def invokeWithLocation_def)
  have b: "Locations dh = [l] \<and> Exists l \<longrightarrow>
      MergeLocations k dh MergeLookup =
        WithDataProvider dh (WithLocation l (LookupKey dh k (Some l)))"
    by (simp add: MergeLocations_def invokeWithLocation_def)
  have c: "Locations dh = [l] \<and> \<not> Exists l \<longrightarrow>
      MergeLocations k dh MergeLookup =
        WithDataProvider dh
          (\<lambda>st. (Inr None, reported [PushLocation l, AcceptLocationNotFound, Pop] st))"
    by (simp add: MergeLocations_def invokeWithLocation_def WithLocation_def
        ReportLocationNotFound_def framed_report)
  have d: "2 \<le> length (Locations dh) \<longrightarrow>
      MergeLocations k dh MergeLookup =
        WithDataProvider dh
          (MergeLookup (Locations dh) (\<lambda>l. invokeWithLocation dh (Some l) k))"
  proof
    assume "2 \<le> length (Locations dh)"
    then obtain x y zs where "Locations dh = x # y # zs"
      by (cases "Locations dh"; cases "tl (Locations dh)") auto
    then show "MergeLocations k dh MergeLookup =
        WithDataProvider dh
          (MergeLookup (Locations dh) (\<lambda>l. invokeWithLocation dh (Some l) k))"
      by (simp add: MergeLocations_def)
  qed
  from a b c d show ?thesis by blast
qed

theorem MergeLocations_dispatch_witness:
  "ext (snd (MergeLocations (keyOf ''a'') (counting []) firstFound (startWith None))) = 1 \<and>
   ext (snd (MergeLocations (keyOf ''a'') (counting [present]) firstFound (startWith None))) = 1 \<and>
   MergeLocations (keyOf ''a'') (counting [missing]) firstFound (startWith tracing) =
     (Inr None,
      (startWith tracing)\<lparr>trace := [PushDataProvider ''data'', PushLocation missing,
         AcceptLocationNotFound, Pop, Pop]\<rparr>) \<and>
   MergeLocations (keyOf ''a'') (counting [missing, present]) firstFound (startWith None) =
     (Inr (Some (String ''v'')), (startWith None)\<lparr>ext := 1\<rparr>)"
proof -
  have a: "ext (snd (MergeLocations (keyOf ''a'') (counting []) firstFound (startWith None))) = 1"
    using MergeLocations_dispatch [where dh = "counting []" and k = "keyOf ''a''"
        and MergeLookup = firstFound]
    by (simp add: counting_def WithDataProvider_def framed_def startWith_def newInvocation_def)
  have b: "ext (snd (MergeLocations (keyOf ''a'') (counting [present]) firstFound (startWith None))) = 1"
    using MergeLocations_dispatch [where dh = "counting [present]" and k = "keyOf ''a''"
        and MergeLookup = firstFound and l = present]
    by (simp add: counting_def present_def WithDataProvider_def WithLocation_def framed_def
        startWith_def newInvocation_def)
  have c: "MergeLocations (keyOf ''a'') (counting [missing]) firstFound (startWith tracing) =
     (Inr None,
      (startWith tracing)\<lparr>trace := [PushDataProvider ''data'', PushLocation missing,
         AcceptLocationNotFound, Pop, Pop]\<rparr>)"
    using MergeLocations_dispatch [where dh = "counting [missing]" and k = "keyOf ''a''"
        and MergeLookup = firstFound and l = missing]
    by (simp add: counting_def missing_def WithDataProvider_def framed_def reported_def
        startWith_def tracing_def newInvocation_def)
  have d: "MergeLocations (keyOf ''a'') (counting [missing, present]) firstFound (startWith None) =
     (Inr (Some (String ''v'')), (startWith None)\<lparr>ext := 1\<rparr>)"
    using MergeLocations_dispatch [where dh = "counting [missing, present]" and k = "keyOf ''a''"
        and MergeLookup = firstFound]
    by (simp add: counting_def missing_def present_def WithDataProvider_def WithLocation_def
        invokeWithLocation_def ReportLocationNotFound_def report_def framed_def
        startWith_def newInvocation_def)
  from a b c d show ?thesis by simp
qed

text \<open>
  The claim C5 as stated has \<^verbatim>\<open>LookupKey\<close> called exactly once with the single
  location. A provider that counts its calls, with one location that does not exist,
  is not called, where one call would have been counted.
\<close>

theorem MergeLocations_single_call_counterexample:
  "Locations (counting [missing]) = [missing] \<and>
   ext (snd (MergeLocations (keyOf ''a'') (counting [missing]) firstFound (startWith None))) = 0 \<and>
   ext (snd (WithDataProvider (counting [missing])
               (LookupKey (counting [missing]) (keyOf ''a'') (Some missing)) (startWith None))) = 1"
  by (simp add: MergeLocations_def invokeWithLocation_def WithDataProvider_def WithLocation_def
      ReportLocationNotFound_def report_def framed_def counting_def missing_def startWith_def
      newInvocation_def)

section \<open>Merge strategy and conversion\<close>

lemma ic_report [simp]: "ic (report ev st) = ic st"
  by (simp add: report_def)

text \<open>
  C8, as amended. \<^verbatim>\<open>SetMergeStrategy\<close> stores the lookup options and selects the
  strategy from the CLI option when there is one, whatever the lookup options hold,
  and without a CLI option from the \<^verbatim>\<open>merge\<close> entry of the lookup options. An option
  that is a string names the strategy, which then has no options; an option that is
  a map with a string under \<^verbatim>\<open>strategy\<close> names the strategy there, and the map without
  that entry is the options of the strategy. The strategy is \<^verbatim>\<open>first\<close>, with no
  options, when there is neither a CLI option nor a \<^verbatim>\<open>merge\<close> entry, and when the
  option is neither a string nor a map.
\<close>

theorem SetMergeStrategy_selection:
  "luOpts (ic (snd (SetMergeStrategy G cli lo st))) = lo \<and>
   (cli = Some (String n) \<longrightarrow> selects G n None st (SetMergeStrategy G cli lo st)) \<and>
   (cli = Some (Map m) \<and> Map_Get m ''strategy'' = Some (String n) \<longrightarrow>
      selects G n (Some (Map_Without m ''strategy'')) st (SetMergeStrategy G cli lo st)) \<and>
   (cli = Some c \<and> (\<forall>s. c \<noteq> String s) \<and> (\<forall>m. c \<noteq> Map m) \<longrightarrow>
      selects G ''first'' None st (SetMergeStrategy G cli lo st)) \<and>
   (cli = None \<and> lo = Some lm \<and> Map_Get lm ''merge'' = Some (String n) \<longrightarrow>
      selects G n None st (SetMergeStrategy G cli lo st)) \<and>
   (cli = None \<and> lo = Some lm \<and> Map_Get lm ''merge'' = Some (Map m) \<and>
    Map_Get m ''strategy'' = Some (String n) \<longrightarrow>
      selects G n (Some (Map_Without m ''strategy'')) st (SetMergeStrategy G cli lo st)) \<and>
   (cli = None \<and> lo = Some lm \<and> Map_Get lm ''merge'' = Some c \<and>
    (\<forall>s. c \<noteq> String s) \<and> (\<forall>m. c \<noteq> Map m) \<longrightarrow>
      selects G ''first'' None st (SetMergeStrategy G cli lo st)) \<and>
   (cli = None \<and> (lo = None \<or> (\<exists>lm. lo = Some lm \<and> Map_Get lm ''merge'' = None)) \<longrightarrow>
      selects G ''first'' None st (SetMergeStrategy G cli lo st))"
proof -
  have a: "luOpts (ic (snd (SetMergeStrategy G cli lo st))) = lo"
    by (simp add: SetMergeStrategy_def Let_def split: prod.splits sum.splits)
  have b: "cli = Some (String n) \<longrightarrow> selects G n None st (SetMergeStrategy G cli lo st)"
    by (simp add: SetMergeStrategy_def ReportMergeSource_def selects_def split: sum.splits)
  have c: "cli = Some (Map m) \<and> Map_Get m ''strategy'' = Some (String n) \<longrightarrow>
      selects G n (Some (Map_Without m ''strategy'')) st (SetMergeStrategy G cli lo st)"
    by (simp add: SetMergeStrategy_def ReportMergeSource_def selects_def split: sum.splits)
  have d: "cli = Some c \<and> (\<forall>s. c \<noteq> String s) \<and> (\<forall>m. c \<noteq> Map m) \<longrightarrow>
      selects G ''first'' None st (SetMergeStrategy G cli lo st)"
    by (cases c)
      (simp_all add: SetMergeStrategy_def ReportMergeSource_def selects_def split: sum.splits)
  have e: "cli = None \<and> lo = Some lm \<and> Map_Get lm ''merge'' = Some (String n) \<longrightarrow>
      selects G n None st (SetMergeStrategy G cli lo st)"
    by (simp add: SetMergeStrategy_def ReportMergeSource_def selects_def split: sum.splits)
  have f: "cli = None \<and> lo = Some lm \<and> Map_Get lm ''merge'' = Some (Map m) \<and>
    Map_Get m ''strategy'' = Some (String n) \<longrightarrow>
      selects G n (Some (Map_Without m ''strategy'')) st (SetMergeStrategy G cli lo st)"
    by (simp add: SetMergeStrategy_def ReportMergeSource_def selects_def split: sum.splits)
  have g: "cli = None \<and> lo = Some lm \<and> Map_Get lm ''merge'' = Some c \<and>
    (\<forall>s. c \<noteq> String s) \<and> (\<forall>m. c \<noteq> Map m) \<longrightarrow>
      selects G ''first'' None st (SetMergeStrategy G cli lo st)"
    by (cases c)
      (simp_all add: SetMergeStrategy_def ReportMergeSource_def selects_def split: sum.splits)
  have h: "cli = None \<and> (lo = None \<or> (\<exists>lm. lo = Some lm \<and> Map_Get lm ''merge'' = None)) \<longrightarrow>
      selects G ''first'' None st (SetMergeStrategy G cli lo st)"
    by (auto simp: SetMergeStrategy_def selects_def split: sum.splits)
  from a b c d e f g h show ?thesis by blast
qed

theorem SetMergeStrategy_selection_witness:
  "strategy (ic (snd (SetMergeStrategy knownStrategy None None (startWith None)))) =
     Some \<lparr>Name = ''first'', MergeOptions = None\<rparr> \<and>
   strategy (ic (snd (SetMergeStrategy knownStrategy (Some (String ''unique'')) (Some deepOptions)
     (startWith None)))) = Some \<lparr>Name = ''unique'', MergeOptions = None\<rparr> \<and>
   strategy (ic (snd (SetMergeStrategy knownStrategy None (Some deepOptions) (startWith None)))) =
     Some \<lparr>Name = ''deep'', MergeOptions = Some [(String ''knockout_prefix'', String ''--'')]\<rparr> \<and>
   strategy (ic (snd (SetMergeStrategy knownStrategy (Some (Integer 3)) (Some deepOptions)
     (startWith None)))) = Some \<lparr>Name = ''first'', MergeOptions = None\<rparr> \<and>
   luOpts (ic (snd (SetMergeStrategy knownStrategy None (Some deepOptions) (startWith None)))) =
     Some deepOptions"
proof -
  have a: "strategy (ic (snd (SetMergeStrategy knownStrategy None None (startWith None)))) =
     Some \<lparr>Name = ''first'', MergeOptions = None\<rparr>"
    using SetMergeStrategy_selection [where G = knownStrategy and cli = None and lo = None
        and st = "startWith None"]
    by (simp add: selects_def knownStrategy_def)
  have b: "strategy (ic (snd (SetMergeStrategy knownStrategy (Some (String ''unique''))
     (Some deepOptions) (startWith None)))) = Some \<lparr>Name = ''unique'', MergeOptions = None\<rparr>"
    using SetMergeStrategy_selection [where G = knownStrategy and cli = "Some (String ''unique'')"
        and lo = "Some deepOptions" and st = "startWith None" and n = "''unique''"]
    by (simp add: selects_def knownStrategy_def)
  have m: "Map_Get deepOptions ''merge'' =
      Some (Map [(String ''strategy'', String ''deep''), (String ''knockout_prefix'', String ''--'')])"
    by (simp add: Map_Get_def deepOptions_def)
  have s: "Map_Get [(String ''strategy'', String ''deep''), (String ''knockout_prefix'', String ''--'')]
      ''strategy'' = Some (String ''deep'')"
    by (simp add: Map_Get_def)
  have w: "Map_Without [(String ''strategy'', String ''deep''), (String ''knockout_prefix'', String ''--'')]
      ''strategy'' = [(String ''knockout_prefix'', String ''--'')]"
    by (simp add: Map_Without_def)
  have c: "strategy (ic (snd (SetMergeStrategy knownStrategy None (Some deepOptions) (startWith None)))) =
     Some \<lparr>Name = ''deep'', MergeOptions = Some [(String ''knockout_prefix'', String ''--'')]\<rparr>"
    using SetMergeStrategy_selection [where G = knownStrategy and cli = None
        and lo = "Some deepOptions" and st = "startWith None" and n = "''deep''"
        and lm = deepOptions
        and m = "[(String ''strategy'', String ''deep''), (String ''knockout_prefix'', String ''--'')]"]
      m s w
    by (simp add: selects_def knownStrategy_def)
  have d: "strategy (ic (snd (SetMergeStrategy knownStrategy (Some (Integer 3)) (Some deepOptions)
     (startWith None)))) = Some \<lparr>Name = ''first'', MergeOptions = None\<rparr>"
    using SetMergeStrategy_selection [where G = knownStrategy and cli = "Some (Integer 3)"
        and lo = "Some deepOptions" and st = "startWith None" and c = "Integer 3"]
    by (simp add: selects_def knownStrategy_def)
  have e: "luOpts (ic (snd (SetMergeStrategy knownStrategy None (Some deepOptions) (startWith None)))) =
     Some deepOptions"
    using SetMergeStrategy_selection [where G = knownStrategy and cli = None
        and lo = "Some deepOptions" and st = "startWith None"]
    by simp
  from a b c d e show ?thesis by simp
qed

text \<open>
  C8 as it stands does not hold: it has \<^verbatim>\<open>first\<close> selected whenever no source supplies
  a strategy, and the remaining entries as the options whenever the option is a map.
  With no CLI option and the lookup options \<^verbatim>\<open>merge: {knockout_prefix: "--"}\<close>, a map
  without \<^verbatim>\<open>strategy\<close>, \<^verbatim>\<open>merge.GetStrategy\<close> is asked for the empty name with no
  options: a \<^verbatim>\<open>GetStrategy\<close> that knows every name gives the strategy of the empty
  name, not \<^verbatim>\<open>first\<close>, and without the entry \<^verbatim>\<open>knockout_prefix\<close>; one that knows the
  four names of hiera panics and no strategy is set.
\<close>

theorem SetMergeStrategy_map_without_strategy_counterexample:
  "Map_Get prefixOnly ''merge'' = Some (Map [(String ''knockout_prefix'', String ''--'')]) \<and>
   Map_Get [(String ''knockout_prefix'', String ''--'')] ''strategy'' = None \<and>
   strategy (ic (snd (SetMergeStrategy anyStrategy None (Some prefixOnly) (startWith None)))) =
     Some \<lparr>Name = [], MergeOptions = None\<rparr> \<and>
   \<not> selects anyStrategy ''first'' None (startWith None)
       (SetMergeStrategy anyStrategy None (Some prefixOnly) (startWith None)) \<and>
   \<not> selects anyStrategy [] (Some [(String ''knockout_prefix'', String ''--'')]) (startWith None)
       (SetMergeStrategy anyStrategy None (Some prefixOnly) (startWith None)) \<and>
   fst (SetMergeStrategy knownStrategy None (Some prefixOnly) (startWith None)) =
     Inl (Errorf ''unknown merge strategy '') \<and>
   strategy (ic (snd (SetMergeStrategy knownStrategy None (Some prefixOnly) (startWith None)))) =
     None"
  by (simp add: SetMergeStrategy_def ReportMergeSource_def report_def selects_def anyStrategy_def
      knownStrategy_def prefixOnly_def Map_Get_def startWith_def newInvocation_def)




section \<open>The provider cache\<close>

text \<open>
  C7. \<^verbatim>\<open>Cache\<close> returns the value stored under the key before the call, or \<^verbatim>\<open>px.Undef\<close>
  when there was none, and stores the new value under the key, which \<^verbatim>\<open>CachedValue\<close>
  then reports as found. On the empty cache, caching 1 under \<^verbatim>\<open>x\<close> returns
  \<^verbatim>\<open>px.Undef\<close>, caching 2 then returns 1, and the cached value is then 2.
\<close>

theorem Cache_previous_value:
  "fst (Cache k v cache) = (case cache k of None \<Rightarrow> Undef | Some old \<Rightarrow> old) \<and>
   snd (Cache k v cache) = cache(k \<mapsto> v) \<and>
   CachedValue k (snd (Cache k v cache)) = (Some v, True) \<and>
   Cache ''x'' (PxInteger 1) Map.empty = (Undef, [''x'' \<mapsto> PxInteger 1]) \<and>
   Cache ''x'' (PxInteger 2) [''x'' \<mapsto> PxInteger 1] = (PxInteger 1, [''x'' \<mapsto> PxInteger 2]) \<and>
   CachedValue ''x'' [''x'' \<mapsto> PxInteger 2] = (Some (PxInteger 2), True)"
  by (simp add: Cache_def CachedValue_def LoadOrStore_def Store_def Load_def split: option.splits)

section \<open>Single-flight construction of the config\<close>

subsection \<open>The invariant holds in every run\<close>

lemma keys_simps [simp]:
  "cpOf p = cpOf q \<longleftrightarrow> p = q" "lcOf p = lcOf q \<longleftrightarrow> p = q"
  "cpOf p \<noteq> lcOf q" "lcOf q \<noteq> cpOf p"
  by (simp_all add: cpOf_def lcOf_def hieraConfigsPrefix_def hieraLockPrefix_def)

lemma goto_simps [simp]:
  "sharedCache (goto i a s) = sharedCache s"
  "mutexes (goto i a s) = mutexes s"
  "newCalls (goto i a s) = newCalls s"
  "length (callers (goto i a s)) = length (callers s)"
  "i < length (callers s) \<Longrightarrow> callers (goto i a s) ! i = (callers s ! i)\<lparr>at := a\<rparr>"
  "j \<noteq> i \<Longrightarrow> callers (goto i a s) ! j = callers s ! j"
  by (simp_all add: goto_def)

lemma nth_goto:
  "i < length (callers s) \<Longrightarrow>
   callers (goto i a s) ! j = (if j = i then (callers s ! i)\<lparr>at := a\<rparr> else callers s ! j)"
  by (simp add: goto_def)

lemma count_update:
  "i < length xs \<Longrightarrow>
   length (filter P (xs[i := x])) + (if P (xs ! i) then 1 else 0) =
   length (filter P xs) + (if P x then 1 else 0)"
proof (induction xs arbitrary: i)
  case Nil
  then show ?case by simp
next
  case (Cons y ys)
  then show ?case by (cases i) auto
qed

lemma no_readers:
  assumes "\<And>j. j < length xs \<Longrightarrow> \<not> P (xs ! j)"
  shows "length (filter P xs) = 0"
  using assms by (auto simp: filter_empty_conv in_set_conv_nth)

lemma sum_update:
  "i < length xs \<Longrightarrow>
   sum_list (map f (xs[i := x])) + f (xs ! i) = sum_list (map f xs) + (f x :: nat)"
proof (induction xs arbitrary: i)
  case Nil
  then show ?case by simp
next
  case (Cons y ys)
  then show ?case by (cases i) auto
qed

lemma callsOf_append [simp]:
  "callsOf (calls @ [(i, q, r)]) p =
     (if q = p then callsOf calls p @ [(i, q, r)] else callsOf calls p)"
  by (simp add: callsOf_def)

lemma invD:
  assumes "flight_inv w s"
  shows "path_ok s p" and "j < length (callers s) \<Longrightarrow> caller_ok w s j" and "readers_ok s l"
  using assms by (auto simp: flight_inv_def)

lemma inv_init: "flight_inv w (Config_calls cs x)"
  by (auto simp: flight_inv_def path_ok_def caller_ok_def readers_ok_def Config_calls_def callsOf_def
      filter_empty_conv split: prod.splits)

lemma stage_cp:
  "stage cache wr calls p l a \<Longrightarrow>
   cache (cpOf p) = None \<or> (\<exists>c. cache (cpOf p) = Some (ConfigEntry c))"
  by (cases a) auto

lemma path_ok_cp:
  "path_ok s p \<Longrightarrow>
   sharedCache s (cpOf p) = None \<or> (\<exists>c. sharedCache s (cpOf p) = Some (ConfigEntry c))"
  by (auto simp: path_ok_def split: option.splits entry.splits dest: stage_cp)

lemma stage_cong:
  "cache' (cpOf p) = cache (cpOf p) \<Longrightarrow>
   stage cache' wr calls p l a = stage cache wr calls p l a"
  by (cases a) auto

lemma cok_cong:
  "cache' (cpOf (configPath c)) = cache (cpOf (configPath c)) \<Longrightarrow>
   cache' (lcOf (configPath c)) = cache (lcOf (configPath c)) \<Longrightarrow>
   cok w cache' mx j c a = cok w cache mx j c a"
  by (cases a) auto

lemma stage_unlocked:
  "stage cache False calls p l a \<Longrightarrow> \<exists>c. cache (cpOf p) = Some (ConfigEntry c)"
  by (cases a) auto

lemma stage_calls:
  "stage cache wr calls p l a \<Longrightarrow> length calls \<le> 1"
  by (cases a) auto

lemma stage_published:
  "stage cache wr calls p l a \<Longrightarrow> cache (cpOf p) = Some (ConfigEntry conf) \<Longrightarrow>
   calls = [(l, p, Inr conf)]"
  by (cases a) auto

lemma stage_locked:
  "stage cache True calls p l a \<Longrightarrow>
   a = Construct \<or> (\<exists>c. a = StoreConfig c) \<or> (\<exists>c. a = Unlock c) \<or> (\<exists>e. a = Panicked e)"
  by (cases a) auto

lemma step_bounds: "step w i s = Some s' \<Longrightarrow> i < length (callers s)"
  by (simp add: step_def split: if_splits)

lemma step_final:
  "at (callers s ! i) = Returned rc \<or> at (callers s ! i) = Panicked e \<Longrightarrow> step w i s = None"
  by (auto simp: step_def)

lemma inv_Entry:
  assumes iv: "flight_inv w s" and i: "i < length (callers s)" and at: "at (callers s ! i) = Entry"
    and st: "step w i s = Some s'"
  shows "flight_inv w s'"
proof -
  note po = invD(1) [OF iv] and co = invD(2) [OF iv] and ro = invD(3) [OF iv]
  let ?c = "callers s ! i"
  from co [OF i] at have e: "configs ?c = Map.empty" by (simp add: caller_ok_def)
  define c' where "c' = ?c\<lparr>configPath := (if configPath ?c = [] then HieraConfig w else configPath ?c),
     at := FastLoad\<rparr>"
  from st i at e have s': "s' = s\<lparr>callers := (callers s)[i := c']\<rparr>"
    by (simp add: step_def c'_def Let_def)
  have 1: "path_ok s' p" for p
    using po [of p] i at
    by (auto simp: path_ok_def s' nth_list_update split: option.splits entry.splits)
  have 2: "caller_ok w s' j" if "j < length (callers s)" for j
    using co [OF that] i at
    by (auto simp: caller_ok_def s' c'_def nth_list_update)
  have 3: "readers_ok s' l" for l
    using ro [of l] count_update [OF i, of "\<lambda>c. reading l (at c)" c'] at
    by (auto simp: readers_ok_def s' c'_def)
  from 1 2 3 show ?thesis by (simp add: flight_inv_def s')
qed

lemma inv_FastLoad:
  assumes "flight_inv w s" and i: "i < length (callers s)" and at: "at (callers s ! i) = FastLoad"
    and st: "step w i s = Some s'"
  shows "flight_inv w s'"
proof -
  let ?p = "configPath (callers s ! i)"
  from assms(1) have po: "\<And>p. path_ok s p" and co: "\<And>j. j < length (callers s) \<Longrightarrow> caller_ok w s j"
    and ro: "\<And>l. readers_ok s l"
    by (auto simp: flight_inv_def)
  from st i at path_ok_cp [OF po [of ?p]] obtain a where s': "s' = goto i a s"
    and a: "a = NewLock \<or>
            (\<exists>conf. a = Resolved conf \<and> sharedCache s (cpOf ?p) = Some (ConfigEntry conf))"
    by (auto simp: step_def Load_def cpOf_def split: option.splits entry.splits)
  have 1: "path_ok s' p" for p
    using po [of p] i at
    by (auto simp: path_ok_def s' nth_goto split: option.splits entry.splits)
  have 2: "caller_ok w s' j" if "j < length (callers s)" for j
    using co [OF that] a i at
    by (auto simp: caller_ok_def s' nth_goto)
  have 3: "readers_ok s' l" for l
    using ro [of l] count_update [OF i, of "\<lambda>c. reading l (at c)" "(callers s ! i)\<lparr>at := a\<rparr>"] a at
    by (auto simp: readers_ok_def s' goto_def)
  from 1 2 3 show ?thesis by (simp add: flight_inv_def s')
qed

lemma inv_NewLock:
  assumes iv: "flight_inv w s" and i: "i < length (callers s)" and at: "at (callers s ! i) = NewLock"
    and st: "step w i s = Some s'"
  shows "flight_inv w s'"
proof -
  note po = invD(1) [OF iv] and co = invD(2) [OF iv] and ro = invD(3) [OF iv]
  let ?p = "configPath (callers s ! i)"
  from st i at have s': "s' = goto i Publish (s\<lparr>mutexes := (mutexes s)(i := \<lparr>writer = True, readers = 0\<rparr>)\<rparr>)"
    by (simp add: step_def RWMutex_Lock_def)
  have notwin: "sharedCache s (lcOf p) \<noteq> Some (LockEntry i)" for p
    using po [of p] at by (auto simp: path_ok_def)
  have 1: "path_ok s' p" for p
    using po [of p] i at
    by (auto simp: path_ok_def s' nth_goto split: option.splits entry.splits)
  have 2: "caller_ok w s' j" if "j < length (callers s)" for j
  proof (cases "j = i")
    case True
    then show ?thesis using i notwin [of ?p] by (simp add: caller_ok_def s')
  next
    case False
    then show ?thesis
      using co [OF that] notwin [of "configPath (callers s ! j)"]
      by (cases "at (callers s ! j)") (auto simp: caller_ok_def s')
  qed
  have nr: "\<not> reading i (at (callers s ! j))" if "j < length (callers s)" for j
    using co [OF that] notwin [of "configPath (callers s ! j)"]
    by (cases "at (callers s ! j)") (auto simp: caller_ok_def)
  have 3: "readers_ok s' l" for l
  proof (cases "l = i")
    case True
    have "length (filter (\<lambda>c. reading i (at c)) (callers s)) = 0"
      by (rule no_readers) (use nr in auto)
    then show ?thesis
      using True count_update [OF i, of "\<lambda>c. reading l (at c)" "(callers s ! i)\<lparr>at := Publish\<rparr>"] at
      by (auto simp: readers_ok_def s' goto_def)
  next
    case False
    then show ?thesis
      using ro [of l] count_update [OF i, of "\<lambda>c. reading l (at c)" "(callers s ! i)\<lparr>at := Publish\<rparr>"] at
      by (auto simp: readers_ok_def s' goto_def)
  qed
  from 1 2 3 show ?thesis by (simp add: flight_inv_def s')
qed

lemma inv_Publish:
  assumes iv: "flight_inv w s" and i: "i < length (callers s)" and at: "at (callers s ! i) = Publish"
    and st: "step w i s = Some s'"
  shows "flight_inv w s'"
proof -
  note po = invD(1) [OF iv] and co = invD(2) [OF iv] and ro = invD(3) [OF iv]
  let ?p = "configPath (callers s ! i)"
  from co [OF i] at have own: "writer (mutexes s i)"
    and notme: "sharedCache s (lcOf ?p) \<noteq> Some (LockEntry i)"
    by (simp_all add: caller_ok_def)
  have notwin: "sharedCache s (lcOf p) \<noteq> Some (LockEntry i)" for p
    using po [of p] at by (auto simp: path_ok_def)
  show ?thesis
  proof (cases "sharedCache s (lcOf ?p)")
    case None
    with st i at have s': "s' = goto i Construct
        (s\<lparr>sharedCache := (sharedCache s)(lcOf ?p \<mapsto> LockEntry i)\<rparr>)"
      by (simp add: step_def LoadOrStore_def lcOf_def)
    from po [of ?p] None have fresh: "sharedCache s (cpOf ?p) = None" "callsOf (newCalls s) ?p = []"
      by (simp_all add: path_ok_def)
    have 1: "path_ok s' p" for p
    proof (cases "p = ?p")
      case True
      then show ?thesis using i own fresh by (simp add: path_ok_def s')
    next
      case False
      have "stage ((sharedCache s)(lcOf ?p \<mapsto> LockEntry i)) wr calls p l a =
            stage (sharedCache s) wr calls p l a" for wr calls l a
        by (rule stage_cong) simp
      then show ?thesis
        using False po [of p] i notwin [of p]
        by (auto simp: path_ok_def s' nth_goto split: option.splits entry.splits)
    qed
    have 2: "caller_ok w s' j" if "j < length (callers s)" for j
    proof (cases "j = i")
      case True
      then show ?thesis using i by (simp add: caller_ok_def s')
    next
      case False
      show ?thesis
      proof (cases "configPath (callers s ! j) = ?p")
        case True
        then show ?thesis
          using co [OF that] \<open>j \<noteq> i\<close> None fresh
          by (cases "at (callers s ! j)") (auto simp: caller_ok_def s')
      next
        case ne: False
        have "cok w ((sharedCache s)(lcOf ?p \<mapsto> LockEntry i)) (mutexes s) j (callers s ! j) a =
              cok w (sharedCache s) (mutexes s) j (callers s ! j) a" for a
          by (rule cok_cong) (use ne in auto)
        then show ?thesis
          using co [OF that] \<open>j \<noteq> i\<close> by (simp add: caller_ok_def s')
      qed
    qed
    have 3: "readers_ok s' l" for l
      using ro [of l] count_update [OF i, of "\<lambda>c. reading l (at c)" "(callers s ! i)\<lparr>at := Construct\<rparr>"] at
      by (auto simp: readers_ok_def s' goto_def)
    from 1 2 3 show ?thesis by (simp add: flight_inv_def s')
  next
    case (Some lv)
    with st i at have s': "s' = goto i (UnlockOwn lv) s"
      by (simp add: step_def LoadOrStore_def lcOf_def)
    have 1: "path_ok s' p" for p
      using po [of p] i at
      by (auto simp: path_ok_def s' nth_goto split: option.splits entry.splits)
    have 2: "caller_ok w s' j" if "j < length (callers s)" for j
      using co [OF that] i at Some own notme
      by (auto simp: caller_ok_def s' nth_goto)
    have 3: "readers_ok s' l" for l
      using ro [of l] count_update [OF i, of "\<lambda>c. reading l (at c)" "(callers s ! i)\<lparr>at := UnlockOwn lv\<rparr>"] at
      by (auto simp: readers_ok_def s' goto_def)
    from 1 2 3 show ?thesis by (simp add: flight_inv_def s')
  qed
qed

lemma inv_Construct:
  assumes iv: "flight_inv w s" and i: "i < length (callers s)" and at: "at (callers s ! i) = Construct"
    and st: "step w i s = Some s'"
  shows "flight_inv w s'"
proof -
  note po = invD(1) [OF iv] and co = invD(2) [OF iv] and ro = invD(3) [OF iv]
  let ?p = "configPath (callers s ! i)"
  from co [OF i] at have win: "sharedCache s (lcOf ?p) = Some (LockEntry i)"
    by (simp add: caller_ok_def)
  from po [of ?p] win at have stg: "writer (mutexes s i)" "sharedCache s (cpOf ?p) = None"
      "callsOf (newCalls s) ?p = []"
    by (simp_all add: path_ok_def)
  define r where "r = fst (config_New w ?p (files s))"
  define a :: "('a, 'b) pc" where
    "a = (case r of Inl e \<Rightarrow> Panicked e | Inr conf \<Rightarrow> StoreConfig conf)"
  from st i at have s': "s' = goto i a
      (s\<lparr>files := snd (config_New w ?p (files s)), newCalls := newCalls s @ [(i, ?p, r)]\<rparr>)"
    by (auto simp: step_def a_def r_def Let_def split: sum.splits prod.splits)
  have 1: "path_ok s' p" for p
  proof (cases "p = ?p")
    case True
    then show ?thesis using i win stg by (auto simp: path_ok_def s' a_def split: sum.splits)
  next
    case False
    then show ?thesis
      using po [of p] i
      by (auto simp: path_ok_def s' nth_goto split: option.splits entry.splits)
  qed
  have 2: "caller_ok w s' j" if "j < length (callers s)" for j
    using co [OF that] i at win
    by (auto simp: caller_ok_def s' nth_goto a_def split: sum.splits)
  have 3: "readers_ok s' l" for l
    using ro [of l] count_update [OF i, of "\<lambda>c. reading l (at c)" "(callers s ! i)\<lparr>at := a\<rparr>"] at
    by (auto simp: readers_ok_def s' goto_def a_def split: sum.splits)
  from 1 2 3 show ?thesis by (simp add: flight_inv_def s')
qed

lemma inv_StoreConfig:
  assumes iv: "flight_inv w s" and i: "i < length (callers s)"
    and at: "at (callers s ! i) = StoreConfig conf" and st: "step w i s = Some s'"
  shows "flight_inv w s'"
proof -
  note po = invD(1) [OF iv] and co = invD(2) [OF iv] and ro = invD(3) [OF iv]
  let ?p = "configPath (callers s ! i)"
  from co [OF i] at have win: "sharedCache s (lcOf ?p) = Some (LockEntry i)"
    by (simp add: caller_ok_def)
  from po [of ?p] win at have stg: "writer (mutexes s i)" "sharedCache s (cpOf ?p) = None"
      "callsOf (newCalls s) ?p = [(i, ?p, Inr conf)]"
    by (simp_all add: path_ok_def)
  from st i at have s': "s' = goto i (Unlock conf)
      (s\<lparr>sharedCache := (sharedCache s)(cpOf ?p \<mapsto> ConfigEntry conf)\<rparr>)"
    by (simp add: step_def Store_def cpOf_def)
  have 1: "path_ok s' p" for p
  proof (cases "p = ?p")
    case True
    then show ?thesis using i win stg by (simp add: path_ok_def s')
  next
    case False
    have "stage ((sharedCache s)(cpOf ?p \<mapsto> ConfigEntry conf)) wr calls p l a =
          stage (sharedCache s) wr calls p l a" for wr calls l a
      by (rule stage_cong) (use False in simp)
    then show ?thesis
      using False po [of p] i
      by (auto simp: path_ok_def s' nth_goto split: option.splits entry.splits)
  qed
  have 2: "caller_ok w s' j" if "j < length (callers s)" for j
  proof (cases "j = i")
    case True
    then show ?thesis using i win by (simp add: caller_ok_def s')
  next
    case False
    show ?thesis
    proof (cases "configPath (callers s ! j) = ?p")
      case True
      then show ?thesis
        using co [OF that] \<open>j \<noteq> i\<close> stg(2)
        by (cases "at (callers s ! j)") (auto simp: caller_ok_def s')
    next
      case ne: False
      have "cok w ((sharedCache s)(cpOf ?p \<mapsto> ConfigEntry conf)) (mutexes s) j (callers s ! j) a =
            cok w (sharedCache s) (mutexes s) j (callers s ! j) a" for a
        by (rule cok_cong) (use ne in auto)
      then show ?thesis
        using co [OF that] \<open>j \<noteq> i\<close> by (simp add: caller_ok_def s')
    qed
  qed
  have 3: "readers_ok s' l" for l
    using ro [of l] count_update [OF i, of "\<lambda>c. reading l (at c)" "(callers s ! i)\<lparr>at := Unlock conf\<rparr>"] at
    by (auto simp: readers_ok_def s' goto_def)
  from 1 2 3 show ?thesis by (simp add: flight_inv_def s')
qed

lemma inv_Unlock:
  assumes iv: "flight_inv w s" and i: "i < length (callers s)"
    and at: "at (callers s ! i) = Unlock conf" and st: "step w i s = Some s'"
  shows "flight_inv w s'"
proof -
  note po = invD(1) [OF iv] and co = invD(2) [OF iv] and ro = invD(3) [OF iv]
  let ?p = "configPath (callers s ! i)"
  from co [OF i] at have win: "sharedCache s (lcOf ?p) = Some (LockEntry i)"
    by (simp add: caller_ok_def)
  from po [of ?p] win at have stg: "writer (mutexes s i)"
      "sharedCache s (cpOf ?p) = Some (ConfigEntry conf)"
      "callsOf (newCalls s) ?p = [(i, ?p, Inr conf)]"
    by (simp_all add: path_ok_def)
  from st i at stg(1) have s': "s' = goto i (Resolved conf)
      (s\<lparr>mutexes := (mutexes s)(i := (mutexes s i)\<lparr>writer := False\<rparr>)\<rparr>)"
    by (simp add: step_def RWMutex_Unlock_def)
  have 1: "path_ok s' p" for p
  proof (cases "p = ?p")
    case True
    then show ?thesis using i win stg by (simp add: path_ok_def s')
  next
    case False
    then show ?thesis
      using po [of p] i
      by (auto simp: path_ok_def s' nth_goto split: option.splits entry.splits)
  qed
  have 2: "caller_ok w s' j" if "j < length (callers s)" for j
  proof (cases "j = i")
    case True
    then show ?thesis using i stg by (simp add: caller_ok_def s')
  next
    case False
    then show ?thesis
      using co [OF that]
      by (cases "at (callers s ! j)") (auto simp: caller_ok_def s')
  qed
  have 3: "readers_ok s' l" for l
    using ro [of l] count_update [OF i, of "\<lambda>c. reading l (at c)" "(callers s ! i)\<lparr>at := Resolved conf\<rparr>"] at
    by (auto simp: readers_ok_def s' goto_def)
  from 1 2 3 show ?thesis by (simp add: flight_inv_def s')
qed

lemma inv_UnlockOwn:
  assumes iv: "flight_inv w s" and i: "i < length (callers s)"
    and at: "at (callers s ! i) = UnlockOwn lv" and st: "step w i s = Some s'"
  shows "flight_inv w s'"
proof -
  note po = invD(1) [OF iv] and co = invD(2) [OF iv] and ro = invD(3) [OF iv]
  let ?p = "configPath (callers s ! i)"
  from co [OF i] at have c: "sharedCache s (lcOf ?p) = Some lv" "lv \<noteq> LockEntry i"
      "writer (mutexes s i)"
    by (simp_all add: caller_ok_def)
  from po [of ?p] c obtain l where lv: "lv = LockEntry l" and l: "l \<noteq> i"
    by (cases lv) (auto simp: path_ok_def)
  have notwin: "sharedCache s (lcOf p) \<noteq> Some (LockEntry i)" for p
    using po [of p] at by (auto simp: path_ok_def)
  from st i at c(3) lv have s': "s' = goto i (RLock l)
      (s\<lparr>mutexes := (mutexes s)(i := (mutexes s i)\<lparr>writer := False\<rparr>)\<rparr>)"
    by (simp add: step_def RWMutex_Unlock_def)
  have 1: "path_ok s' p" for p
    using po [of p] i at notwin [of p]
    by (auto simp: path_ok_def s' nth_goto split: option.splits entry.splits)
  have 2: "caller_ok w s' j" if "j < length (callers s)" for j
  proof (cases "j = i")
    case True
    then show ?thesis using i c lv by (simp add: caller_ok_def s')
  next
    case False
    then show ?thesis
      using co [OF that]
      by (cases "at (callers s ! j)") (auto simp: caller_ok_def s')
  qed
  have 3: "readers_ok s' l'" for l'
    using ro [of l'] count_update [OF i, of "\<lambda>c. reading l' (at c)" "(callers s ! i)\<lparr>at := RLock l\<rparr>"] at
    by (auto simp: readers_ok_def s' goto_def)
  from 1 2 3 show ?thesis by (simp add: flight_inv_def s')
qed

lemma inv_RLock:
  assumes iv: "flight_inv w s" and i: "i < length (callers s)"
    and at: "at (callers s ! i) = RLock l" and st: "step w i s = Some s'"
  shows "flight_inv w s'"
proof -
  note po = invD(1) [OF iv] and co = invD(2) [OF iv] and ro = invD(3) [OF iv]
  let ?p = "configPath (callers s ! i)"
  from co [OF i] at have c: "sharedCache s (lcOf ?p) = Some (LockEntry l)"
    by (simp add: caller_ok_def)
  from st i at have free: "\<not> writer (mutexes s l)"
    and s': "s' = goto i (Reload l)
      (s\<lparr>mutexes := (mutexes s)(l := (mutexes s l)\<lparr>readers := Suc (readers (mutexes s l))\<rparr>)\<rparr>)"
    by (auto simp: step_def RWMutex_RLock_def split: if_splits)
  have 1: "path_ok s' p" for p
    using po [of p] i at
    by (auto simp: path_ok_def s' nth_goto split: option.splits entry.splits)
  have 2: "caller_ok w s' j" if "j < length (callers s)" for j
  proof (cases "j = i")
    case True
    then show ?thesis using i c free by (simp add: caller_ok_def s')
  next
    case False
    then show ?thesis
      using co [OF that]
      by (cases "at (callers s ! j)") (auto simp: caller_ok_def s')
  qed
  have 3: "readers_ok s' l'" for l'
    using ro [of l'] count_update [OF i, of "\<lambda>c. reading l' (at c)" "(callers s ! i)\<lparr>at := Reload l\<rparr>"] at
    by (auto simp: readers_ok_def s' goto_def)
  from 1 2 3 show ?thesis by (simp add: flight_inv_def s')
qed

lemma inv_Reload:
  assumes iv: "flight_inv w s" and i: "i < length (callers s)"
    and at: "at (callers s ! i) = Reload l" and st: "step w i s = Some s'"
  shows "flight_inv w s'"
proof -
  note po = invD(1) [OF iv] and co = invD(2) [OF iv] and ro = invD(3) [OF iv]
  let ?p = "configPath (callers s ! i)"
  from co [OF i] at have c: "sharedCache s (lcOf ?p) = Some (LockEntry l)" "\<not> writer (mutexes s l)"
    by (simp_all add: caller_ok_def)
  from po [of ?p] c obtain conf where conf: "sharedCache s (cpOf ?p) = Some (ConfigEntry conf)"
    by (auto simp: path_ok_def dest: stage_unlocked)
  from st i at conf have s': "s' = goto i (RUnlock l conf) s"
    by (simp add: step_def Load_def cpOf_def)
  have 1: "path_ok s' p" for p
    using po [of p] i at
    by (auto simp: path_ok_def s' nth_goto split: option.splits entry.splits)
  have 2: "caller_ok w s' j" if "j < length (callers s)" for j
    using co [OF that] i at c conf
    by (auto simp: caller_ok_def s' nth_goto)
  have 3: "readers_ok s' l'" for l'
    using ro [of l'] count_update [OF i, of "\<lambda>c. reading l' (at c)" "(callers s ! i)\<lparr>at := RUnlock l conf\<rparr>"] at
    by (auto simp: readers_ok_def s' goto_def)
  from 1 2 3 show ?thesis by (simp add: flight_inv_def s')
qed

lemma inv_RUnlock:
  assumes iv: "flight_inv w s" and i: "i < length (callers s)"
    and at: "at (callers s ! i) = RUnlock l conf" and st: "step w i s = Some s'"
  shows "flight_inv w s'"
proof -
  note po = invD(1) [OF iv] and co = invD(2) [OF iv] and ro = invD(3) [OF iv]
  let ?p = "configPath (callers s ! i)"
  from co [OF i] at have c: "sharedCache s (lcOf ?p) = Some (LockEntry l)"
      "sharedCache s (cpOf ?p) = Some (ConfigEntry conf)"
    by (simp_all add: caller_ok_def)
  have held: "readers (mutexes s l) \<noteq> 0"
    using ro [of l] count_update [OF i, of "\<lambda>c. reading l (at c)" "(callers s ! i)\<lparr>at := Resolved conf\<rparr>"] at
    by (auto simp: readers_ok_def)
  from st i at held have s': "s' = goto i (Resolved conf)
      (s\<lparr>mutexes := (mutexes s)(l := (mutexes s l)\<lparr>readers := readers (mutexes s l) - 1\<rparr>)\<rparr>)"
    by (simp add: step_def RWMutex_RUnlock_def)
  have 1: "path_ok s' p" for p
    using po [of p] i at
    by (auto simp: path_ok_def s' nth_goto split: option.splits entry.splits)
  have 2: "caller_ok w s' j" if "j < length (callers s)" for j
  proof (cases "j = i")
    case True
    then show ?thesis using i c by (simp add: caller_ok_def s')
  next
    case False
    then show ?thesis
      using co [OF that]
      by (cases "at (callers s ! j)") (auto simp: caller_ok_def s')
  qed
  have 3: "readers_ok s' l'" for l'
    using ro [of l'] count_update [OF i, of "\<lambda>c. reading l' (at c)" "(callers s ! i)\<lparr>at := Resolved conf\<rparr>"] at
    by (auto simp: readers_ok_def s' goto_def)
  from 1 2 3 show ?thesis by (simp add: flight_inv_def s')
qed

lemma inv_Resolved:
  assumes iv: "flight_inv w s" and i: "i < length (callers s)"
    and at: "at (callers s ! i) = Resolved conf" and st: "step w i s = Some s'"
  shows "flight_inv w s'"
proof -
  note po = invD(1) [OF iv] and co = invD(2) [OF iv] and ro = invD(3) [OF iv]
  let ?c = "callers s ! i"
  let ?p = "configPath ?c"
  from co [OF i] at have c: "sharedCache s (cpOf ?p) = Some (ConfigEntry conf)"
    by (simp add: caller_ok_def)
  define c' where "c' = ?c\<lparr>configs := (configs ?c)(?p \<mapsto> Resolve w i conf (moduleName ?c)),
      at := Returned (Resolve w i conf (moduleName ?c))\<rparr>"
  from st i at have s': "s' = s\<lparr>callers := (callers s)[i := c']\<rparr>"
    by (simp add: step_def c'_def Let_def)
  have 1: "path_ok s' p" for p
    using po [of p] i at
    by (auto simp: path_ok_def s' c'_def nth_list_update split: option.splits entry.splits)
  have 2: "caller_ok w s' j" if "j < length (callers s)" for j
    using co [OF that] i at c
    by (auto simp: caller_ok_def s' c'_def nth_list_update)
  have 3: "readers_ok s' l" for l
    using ro [of l] count_update [OF i, of "\<lambda>c. reading l (at c)" c'] at
    by (auto simp: readers_ok_def s' c'_def)
  from 1 2 3 show ?thesis by (simp add: flight_inv_def s')
qed

lemma inv_step:
  assumes "flight_inv w s" and "step w i s = Some s'"
  shows "flight_inv w s'"
proof -
  have i: "i < length (callers s)" by (rule step_bounds [OF assms(2)])
  show ?thesis
  proof (cases "at (callers s ! i)")
    case Entry
    then show ?thesis by (rule inv_Entry [OF assms(1) i _ assms(2)])
  next
    case FastLoad
    then show ?thesis by (rule inv_FastLoad [OF assms(1) i _ assms(2)])
  next
    case NewLock
    then show ?thesis by (rule inv_NewLock [OF assms(1) i _ assms(2)])
  next
    case Publish
    then show ?thesis by (rule inv_Publish [OF assms(1) i _ assms(2)])
  next
    case Construct
    then show ?thesis by (rule inv_Construct [OF assms(1) i _ assms(2)])
  next
    case (StoreConfig c)
    then show ?thesis by (rule inv_StoreConfig [OF assms(1) i _ assms(2)])
  next
    case (Unlock c)
    then show ?thesis by (rule inv_Unlock [OF assms(1) i _ assms(2)])
  next
    case (UnlockOwn lv)
    then show ?thesis by (rule inv_UnlockOwn [OF assms(1) i _ assms(2)])
  next
    case (RLock l)
    then show ?thesis by (rule inv_RLock [OF assms(1) i _ assms(2)])
  next
    case (Reload l)
    then show ?thesis by (rule inv_Reload [OF assms(1) i _ assms(2)])
  next
    case (RUnlock l c)
    then show ?thesis by (rule inv_RUnlock [OF assms(1) i _ assms(2)])
  next
    case (Resolved c)
    then show ?thesis by (rule inv_Resolved [OF assms(1) i _ assms(2)])
  next
    case (Returned rc)
    with assms(2) show ?thesis by (simp add: step_final)
  next
    case (Panicked e)
    with assms(2) show ?thesis by (simp add: step_final)
  qed
qed

lemma inv_run: "flight_inv w s \<Longrightarrow> flight_inv w (run w sched s)"
  by (induction sched arbitrary: s) (auto split: option.splits dest: inv_step)

subsection \<open>Runs end, and end with every caller returned\<close>

lemma step_shape:
  assumes "step w i s = Some s'"
  shows "\<exists>c'. callers s' = (callers s)[i := c'] \<and>
              moduleName c' = moduleName (callers s ! i) \<and>
              rank (at c') < rank (at (callers s ! i)) \<and>
              at c' \<noteq> Entry \<and>
              configPath c' =
                (if at (callers s ! i) = Entry then requested w (configPath (callers s ! i))
                 else configPath (callers s ! i))"
proof -
  have i: "i < length (callers s)" by (rule step_bounds [OF assms])
  show ?thesis
  proof (cases "at (callers s ! i)")
    case Entry
    with assms i show ?thesis
      by (auto simp: step_def Let_def requested_def split: option.splits)
  next
    case FastLoad
    with assms i show ?thesis
      by (auto simp: step_def Let_def goto_def Load_def split: option.splits entry.splits)
  next
    case NewLock
    with assms i show ?thesis
      by (auto simp: step_def Let_def goto_def RWMutex_Lock_def)
  next
    case Publish
    with assms i show ?thesis
      by (auto simp: step_def Let_def goto_def LoadOrStore_def split: option.splits)
  next
    case Construct
    with assms i show ?thesis
      by (auto simp: step_def Let_def goto_def split: sum.splits prod.splits)
  next
    case (StoreConfig c)
    with assms i show ?thesis
      by (auto simp: step_def Let_def goto_def)
  next
    case (Unlock c)
    with assms i show ?thesis
      by (auto simp: step_def Let_def goto_def split: sum.splits)
  next
    case (UnlockOwn lv)
    with assms i show ?thesis
      by (auto simp: step_def Let_def goto_def split: sum.splits entry.splits)
  next
    case (RLock l)
    with assms i show ?thesis
      by (auto simp: step_def Let_def goto_def split: option.splits)
  next
    case (Reload l)
    with assms i show ?thesis
      by (auto simp: step_def Let_def goto_def Load_def split: option.splits entry.splits)
  next
    case (RUnlock l c)
    with assms i show ?thesis
      by (auto simp: step_def Let_def goto_def split: sum.splits)
  next
    case (Resolved c)
    with assms i show ?thesis
      by (auto simp: step_def Let_def)
  next
    case (Returned rc)
    with assms show ?thesis by (simp add: step_final)
  next
    case (Panicked e)
    with assms show ?thesis by (simp add: step_final)
  qed
qed

lemma step_work: "step w i s = Some s' \<Longrightarrow> work s' < work s"
proof -
  assume st: "step w i s = Some s'"
  from step_shape [OF st] obtain c' where c': "callers s' = (callers s)[i := c']"
    "rank (at c') < rank (at (callers s ! i))" by blast
  from sum_update [OF step_bounds [OF st], of "\<lambda>c. rank (at c)" c'] c'
  show ?thesis by (simp add: work_def)
qed

lemma callers_of_init: "callers_of w cs (Config_calls cs x)"
  by (auto simp: callers_of_def Config_calls_def split: prod.splits)

lemma callers_of_step:
  assumes "callers_of w cs s" and "step w i s = Some s'"
  shows "callers_of w cs s'"
proof -
  from step_shape [OF assms(2)] obtain c' where c': "callers s' = (callers s)[i := c']"
    "moduleName c' = moduleName (callers s ! i)" "at c' \<noteq> Entry"
    "configPath c' =
       (if at (callers s ! i) = Entry then requested w (configPath (callers s ! i))
        else configPath (callers s ! i))" by blast
  have i: "i < length (callers s)" by (rule step_bounds [OF assms(2)])
  show ?thesis
    using assms(1) i c'
    by (auto simp: callers_of_def nth_list_update)
qed

lemma callers_of_run: "callers_of w cs s \<Longrightarrow> callers_of w cs (run w sched s)"
  by (induction sched arbitrary: s) (auto split: option.splits dest: callers_of_step)

lemma log_ok_init: "log_ok w (Config_calls cs x)"
  by (simp add: log_ok_def Config_calls_def)

lemma step_log:
  assumes "step w i s = Some s'"
  shows "newCalls s' = newCalls s \<or>
         (\<exists>p x. newCalls s' = newCalls s @ [(i, p, fst (config_New w p x))])"
proof -
  have i: "i < length (callers s)" by (rule step_bounds [OF assms])
  show ?thesis
  proof (cases "at (callers s ! i)")
    case Construct
    with assms i show ?thesis
      by (auto simp: step_def Let_def split: sum.splits prod.splits) (metis fst_conv)+
  qed (use assms i in \<open>auto simp: step_def Let_def goto_def split: option.splits entry.splits
        sum.splits prod.splits if_splits bool.splits\<close>)
qed

lemma log_ok_step:
  assumes "log_ok w s" and "step w i s = Some s'"
  shows "log_ok w s'"
proof -
  from step_log [OF assms(2)] consider "newCalls s' = newCalls s"
    | p x where "newCalls s' = newCalls s @ [(i, p, fst (config_New w p x))]" by blast
  then show ?thesis
  proof cases
    case 1
    with assms(1) show ?thesis by (simp add: log_ok_def)
  next
    case 2
    have "\<exists>y. fst (config_New w p x) = fst (config_New w p y)" by blast
    with assms(1) 2 show ?thesis by (simp add: log_ok_def)
  qed
qed

lemma log_ok_run: "log_ok w s \<Longrightarrow> log_ok w (run w sched s)"
  by (induction sched arbitrary: s) (auto split: option.splits dest: log_ok_step)

subsection \<open>What the invariant gives\<close>

lemma at_most_once:
  assumes "flight_inv w s"
  shows "length (callsOf (newCalls s) p) \<le> 1"
  using invD(1) [OF assms, of p]
  by (auto simp: path_ok_def split: option.splits entry.splits dest: stage_calls)

lemma published:
  assumes "flight_inv w s" and "sharedCache s (cpOf p) = Some (ConfigEntry conf)"
  shows "\<exists>l. callsOf (newCalls s) p = [(l, p, Inr conf)]"
  using invD(1) [OF assms(1), of p] assms(2)
  by (auto simp: path_ok_def split: option.splits entry.splits dest: stage_published)

lemma returned:
  assumes "flight_inv w s" and "j < length (callers s)" and "at (callers s ! j) = Returned rc"
  shows "\<exists>conf l.
           callsOf (newCalls s) (configPath (callers s ! j)) =
             [(l, configPath (callers s ! j), Inr conf)] \<and>
           sharedCache s (cpOf (configPath (callers s ! j))) = Some (ConfigEntry conf) \<and>
           rc = Resolve w j conf (moduleName (callers s ! j))"
proof -
  from invD(2) [OF assms(1,2)] assms(3) obtain conf where
    c: "sharedCache s (cpOf (configPath (callers s ! j))) = Some (ConfigEntry conf)"
       "rc = Resolve w j conf (moduleName (callers s ! j))"
    by (auto simp: caller_ok_def)
  with published [OF assms(1) c(1)] show ?thesis by blast
qed

lemma panicked:
  assumes "flight_inv w s" and "j < length (callers s)" and "at (callers s ! j) = Panicked e"
  shows "callsOf (newCalls s) (configPath (callers s ! j)) =
           [(j, configPath (callers s ! j), Inl e)]"
proof -
  from invD(2) [OF assms(1,2)] assms(3)
  have "sharedCache s (lcOf (configPath (callers s ! j))) = Some (LockEntry j)"
    by (simp add: caller_ok_def)
  with invD(1) [OF assms(1), of "configPath (callers s ! j)"] assms(3)
  show ?thesis by (simp add: path_ok_def)
qed

lemma enabled:
  assumes "i < length (callers s)"
    and "\<And>rc. at (callers s ! i) \<noteq> Returned rc"
    and "\<And>e. at (callers s ! i) \<noteq> Panicked e"
    and "\<And>l. at (callers s ! i) = RLock l \<Longrightarrow> \<not> writer (mutexes s l)"
  shows "step w i s \<noteq> None"
  using assms
  by (cases "at (callers s ! i)")
    (auto simp: step_def Let_def Load_def LoadOrStore_def RWMutex_Lock_def RWMutex_RLock_def
      split: option.splits entry.splits sum.splits prod.splits bool.splits)

lemma stuck_returned:
  assumes iv: "flight_inv w s" and stuck: "\<And>i. step w i s = None"
    and np: "\<And>i e. i < length (callers s) \<Longrightarrow> at (callers s ! i) \<noteq> Panicked e"
    and j: "j < length (callers s)"
  shows "\<exists>rc. at (callers s ! j) = Returned rc"
proof (rule ccontr)
  assume nr: "\<nexists>rc. at (callers s ! j) = Returned rc"
  have "step w j s \<noteq> None"
  proof (rule enabled [OF j])
    show "at (callers s ! j) \<noteq> Returned rc" for rc using nr by blast
    show "at (callers s ! j) \<noteq> Panicked e" for e by (rule np [OF j])
    show "\<not> writer (mutexes s l)" if rl: "at (callers s ! j) = RLock l" for l
    proof
      assume wr: "writer (mutexes s l)"
      let ?p = "configPath (callers s ! j)"
      from invD(2) [OF iv j] rl have c: "sharedCache s (lcOf ?p) = Some (LockEntry l)"
        by (simp add: caller_ok_def)
      with invD(1) [OF iv, of ?p] wr have l: "l < length (callers s)"
        and stg: "stage (sharedCache s) True (callsOf (newCalls s) ?p) ?p l (at (callers s ! l))"
        by (auto simp: path_ok_def)
      from stage_locked [OF stg] np [OF l]
      have "at (callers s ! l) = Construct \<or> (\<exists>c. at (callers s ! l) = StoreConfig c) \<or>
            (\<exists>c. at (callers s ! l) = Unlock c)" by blast
      then have "step w l s \<noteq> None"
        by (intro enabled [OF l]) auto
      with stuck [of l] show False by simp
    qed
  qed
  with stuck [of j] show False by simp
qed

lemma completes: "\<exists>more. \<forall>i. step w i (run w more s) = None"
proof (induction "work s" arbitrary: s rule: less_induct)
  case less
  show ?case
  proof (cases "\<forall>i. step w i s = None")
    case True
    then have "\<forall>i. step w i (run w [] s) = None" by simp
    then show ?thesis by blast
  next
    case False
    then obtain i s' where st: "step w i s = Some s'" by auto
    from less [OF step_work [OF st]] obtain more where "\<forall>k. step w k (run w more s') = None"
      by blast
    with st have "\<forall>k. step w k (run w (i # more) s) = None" by simp
    then show ?thesis by blast
  qed
qed

lemma run_append: "run w (a @ b) s = run w b (run w a s)"
  by (induction a arbitrary: s) (auto split: option.splits)

lemma never_panicked:
  assumes iv: "flight_inv w s" and lg: "log_ok w s" and co: "callers_of w cs s" and ok: "parses w cs"
    and j: "j < length (callers s)"
  shows "at (callers s ! j) \<noteq> Panicked e"
proof
  assume p: "at (callers s ! j) = Panicked e"
  let ?p = "configPath (callers s ! j)"
  from panicked [OF iv j p] have "(j, ?p, Inl e) \<in> set (callsOf (newCalls s) ?p)" by simp
  then have "(j, ?p, Inl e) \<in> set (newCalls s)" by (simp add: callsOf_def)
  with lg obtain x where x: "fst (config_New w ?p x) = Inl e" by (auto simp: log_ok_def)
  from co j p have "?p = requested w (fst (cs ! j))" "j < length cs"
    by (auto simp: callers_of_def)
  with ok x show False by (auto simp: parses_def)
qed

lemma holds_config:
  assumes iv: "flight_inv w s" and st: "step w i s = Some s'" and r: "at (callers s' ! i) = Resolved conf"
  shows "at (callers s ! i) = FastLoad \<or> at (callers s ! i) = Unlock conf \<or>
         (\<exists>l. at (callers s ! i) = RUnlock l conf)"
proof -
  have i: "i < length (callers s)" by (rule step_bounds [OF st])
  show ?thesis
  proof (cases "at (callers s ! i)")
    case (UnlockOwn lv)
    let ?p = "configPath (callers s ! i)"
    from invD(2) [OF iv i] UnlockOwn have "sharedCache s (lcOf ?p) = Some lv"
      by (simp add: caller_ok_def)
    with invD(1) [OF iv, of ?p] obtain l where "lv = LockEntry l"
      by (cases lv) (auto simp: path_ok_def)
    with st r i UnlockOwn show ?thesis
      by (auto simp: step_def goto_def split: sum.splits)
  qed (use st r i in \<open>auto simp: step_def Let_def goto_def split: option.splits entry.splits
        sum.splits prod.splits if_splits bool.splits\<close>)
qed

lemma waits:
  assumes iv: "flight_inv w s" and j: "j < length (callers s)" and rl: "at (callers s ! j) = RLock l"
  shows "sharedCache s (lcOf (configPath (callers s ! j))) = Some (LockEntry l) \<and>
         (step w j s = None \<longleftrightarrow>
            at (callers s ! l) = Construct \<or> (\<exists>c. at (callers s ! l) = StoreConfig c) \<or>
            (\<exists>c. at (callers s ! l) = Unlock c) \<or> (\<exists>e. at (callers s ! l) = Panicked e))"
proof -
  let ?p = "configPath (callers s ! j)"
  from invD(2) [OF iv j] rl have c: "sharedCache s (lcOf ?p) = Some (LockEntry l)"
    by (simp add: caller_ok_def)
  with invD(1) [OF iv, of ?p]
  have stg: "stage (sharedCache s) (writer (mutexes s l)) (callsOf (newCalls s) ?p) ?p l
      (at (callers s ! l))"
    by (simp add: path_ok_def)
  have "writer (mutexes s l) \<longleftrightarrow>
      at (callers s ! l) = Construct \<or> (\<exists>c. at (callers s ! l) = StoreConfig c) \<or>
      (\<exists>c. at (callers s ! l) = Unlock c) \<or> (\<exists>e. at (callers s ! l) = Panicked e)"
    using stg by (cases "at (callers s ! l)") auto
  moreover have "step w j s = None \<longleftrightarrow> writer (mutexes s l)"
    using j rl by (simp add: step_def RWMutex_RLock_def)
  ultimately show ?thesis using c by simp
qed

text \<open>
  C1, as amended. In every run of any number of callers of \<^verbatim>\<open>Config\<close> on a fresh
  session, under every schedule, \<^verbatim>\<open>config.New\<close> is called at most once for a path.
  A caller that has returned holds the config resolved from the one result of that
  one call, the config stored in the cache; a caller that has panicked is the one
  that made the call, and the call panicked. A caller comes to hold a config in one
  of three ways only: it found the config at its first load from the cache, it
  constructed and stored it, or it read it again while holding the read lock of the
  published lock. A caller at that read lock waits exactly as long as the caller
  whose lock is published has not released it. Every step uses up work, so no run
  goes on for ever; and when \<^verbatim>\<open>config.New\<close> returns a config for the paths asked for,
  a run that can go no further has every caller returned, and every run can be
  continued to such an end.
\<close>

theorem Config_single_flight:
  fixes w :: "('c, 'r, 'x) world"
  assumes s: "s = run w sched (Config_calls cs x)"
  shows
    "(\<forall>p. length (callsOf (newCalls s) p) \<le> 1) \<and>
     (\<forall>j < length cs. \<forall>rc. at (callers s ! j) = Returned rc \<longrightarrow>
        (\<exists>conf l.
           callsOf (newCalls s) (requested w (fst (cs ! j))) =
             [(l, requested w (fst (cs ! j)), Inr conf)] \<and>
           sharedCache s (cpOf (requested w (fst (cs ! j)))) = Some (ConfigEntry conf) \<and>
           rc = Resolve w j conf (snd (cs ! j)))) \<and>
     (\<forall>j < length cs. \<forall>e. at (callers s ! j) = Panicked e \<longrightarrow>
        callsOf (newCalls s) (requested w (fst (cs ! j))) =
          [(j, requested w (fst (cs ! j)), Inl e)]) \<and>
     (\<forall>i s' conf. step w i s = Some s' \<and> at (callers s' ! i) = Resolved conf \<longrightarrow>
        at (callers s ! i) = FastLoad \<or> at (callers s ! i) = Unlock conf \<or>
        (\<exists>l. at (callers s ! i) = RUnlock l conf)) \<and>
     (\<forall>j < length cs. \<forall>l. at (callers s ! j) = RLock l \<longrightarrow>
        sharedCache s (lcOf (requested w (fst (cs ! j)))) = Some (LockEntry l) \<and>
        (step w j s = None \<longleftrightarrow>
           at (callers s ! l) = Construct \<or> (\<exists>c. at (callers s ! l) = StoreConfig c) \<or>
           (\<exists>c. at (callers s ! l) = Unlock c) \<or> (\<exists>e. at (callers s ! l) = Panicked e))) \<and>
     (\<forall>i s'. step w i s = Some s' \<longrightarrow> work s' < work s) \<and>
     (parses w cs \<longrightarrow>
        ((\<forall>i. step w i s = None) \<longrightarrow> (\<forall>j < length cs. \<exists>rc. at (callers s ! j) = Returned rc)) \<and>
        (\<exists>more. \<forall>j < length cs. \<exists>rc. at (callers (run w more s) ! j) = Returned rc))"
proof -
  have iv: "flight_inv w s" unfolding s by (rule inv_run [OF inv_init])
  have lg: "log_ok w s" unfolding s by (rule log_ok_run [OF log_ok_init])
  have co: "callers_of w cs s" unfolding s by (rule callers_of_run [OF callers_of_init])
  from co have len: "length (callers s) = length cs" by (simp add: callers_of_def)
  have path: "configPath (callers s ! j) = requested w (fst (cs ! j))"
    if "j < length cs" "at (callers s ! j) \<noteq> Entry" for j
    using co that by (auto simp: callers_of_def)
  have modl: "moduleName (callers s ! j) = snd (cs ! j)" if "j < length cs" for j
    using co that by (auto simp: callers_of_def)
  have a: "\<forall>p. length (callsOf (newCalls s) p) \<le> 1"
    using at_most_once [OF iv] by blast
  have b: "\<forall>j < length cs. \<forall>rc. at (callers s ! j) = Returned rc \<longrightarrow>
        (\<exists>conf l.
           callsOf (newCalls s) (requested w (fst (cs ! j))) =
             [(l, requested w (fst (cs ! j)), Inr conf)] \<and>
           sharedCache s (cpOf (requested w (fst (cs ! j)))) = Some (ConfigEntry conf) \<and>
           rc = Resolve w j conf (snd (cs ! j)))"
  proof (intro allI impI)
    fix j rc
    assume j: "j < length cs" and r: "at (callers s ! j) = Returned rc"
    from returned [OF iv _ r] j len show "\<exists>conf l.
           callsOf (newCalls s) (requested w (fst (cs ! j))) =
             [(l, requested w (fst (cs ! j)), Inr conf)] \<and>
           sharedCache s (cpOf (requested w (fst (cs ! j)))) = Some (ConfigEntry conf) \<and>
           rc = Resolve w j conf (snd (cs ! j))"
      by (simp add: path [OF j] modl [OF j] r)
  qed
  have c: "\<forall>j < length cs. \<forall>e. at (callers s ! j) = Panicked e \<longrightarrow>
        callsOf (newCalls s) (requested w (fst (cs ! j))) =
          [(j, requested w (fst (cs ! j)), Inl e)]"
  proof (intro allI impI)
    fix j e
    assume j: "j < length cs" and r: "at (callers s ! j) = Panicked e"
    from panicked [OF iv _ r] j len show "callsOf (newCalls s) (requested w (fst (cs ! j))) =
          [(j, requested w (fst (cs ! j)), Inl e)]"
      by (simp add: path [OF j] r)
  qed
  have d: "\<forall>i s' conf. step w i s = Some s' \<and> at (callers s' ! i) = Resolved conf \<longrightarrow>
        at (callers s ! i) = FastLoad \<or> at (callers s ! i) = Unlock conf \<or>
        (\<exists>l. at (callers s ! i) = RUnlock l conf)"
    using holds_config [OF iv] by blast
  have g: "\<forall>j < length cs. \<forall>l. at (callers s ! j) = RLock l \<longrightarrow>
        sharedCache s (lcOf (requested w (fst (cs ! j)))) = Some (LockEntry l) \<and>
        (step w j s = None \<longleftrightarrow>
           at (callers s ! l) = Construct \<or> (\<exists>c. at (callers s ! l) = StoreConfig c) \<or>
           (\<exists>c. at (callers s ! l) = Unlock c) \<or> (\<exists>e. at (callers s ! l) = Panicked e))"
  proof (intro allI impI)
    fix j l
    assume j: "j < length cs" and r: "at (callers s ! j) = RLock l"
    from waits [OF iv _ r] j len show
      "sharedCache s (lcOf (requested w (fst (cs ! j)))) = Some (LockEntry l) \<and>
        (step w j s = None \<longleftrightarrow>
           at (callers s ! l) = Construct \<or> (\<exists>c. at (callers s ! l) = StoreConfig c) \<or>
           (\<exists>c. at (callers s ! l) = Unlock c) \<or> (\<exists>e. at (callers s ! l) = Panicked e))"
      by (simp add: path [OF j] r)
  qed
  have e: "\<forall>i s'. step w i s = Some s' \<longrightarrow> work s' < work s"
    using step_work by blast
  have f: "parses w cs \<longrightarrow>
        ((\<forall>i. step w i s = None) \<longrightarrow> (\<forall>j < length cs. \<exists>rc. at (callers s ! j) = Returned rc)) \<and>
        (\<exists>more. \<forall>j < length cs. \<exists>rc. at (callers (run w more s) ! j) = Returned rc)"
  proof
    assume ok: "parses w cs"
    have stuck: "\<forall>j < length cs. \<exists>rc. at (callers t ! j) = Returned rc"
      if t: "t = run w more s" and st: "\<forall>i. step w i t = None" for t more
    proof -
      have t': "t = run w (sched @ more) (Config_calls cs x)" by (simp add: t s run_append)
      have iv': "flight_inv w t" unfolding t' by (rule inv_run [OF inv_init])
      have lg': "log_ok w t" unfolding t' by (rule log_ok_run [OF log_ok_init])
      have co': "callers_of w cs t" unfolding t' by (rule callers_of_run [OF callers_of_init])
      from co' have len': "length (callers t) = length cs" by (simp add: callers_of_def)
      show ?thesis
        using stuck_returned [OF iv' _ never_panicked [OF iv' lg' co' ok]] st len' by auto
    qed
    from completes [of w s] obtain more where "\<forall>i. step w i (run w more s) = None" by blast
    with stuck [of "run w more s" more] have
      "\<exists>more. \<forall>j < length cs. \<exists>rc. at (callers (run w more s) ! j) = Returned rc" by blast
    moreover have "(\<forall>i. step w i s = None) \<longrightarrow>
        (\<forall>j < length cs. \<exists>rc. at (callers s ! j) = Returned rc)"
      using stuck [of s "[]"] by simp
    ultimately show "((\<forall>i. step w i s = None) \<longrightarrow>
          (\<forall>j < length cs. \<exists>rc. at (callers s ! j) = Returned rc)) \<and>
        (\<exists>more. \<forall>j < length cs. \<exists>rc. at (callers (run w more s) ! j) = Returned rc)"
      by blast
  qed
  from a b c d g e f show ?thesis by blast
qed

theorem Config_single_flight_witness:
  "parses parsingWorld threeCallers \<and>
   map at (callers (run parsingWorld raced (Config_calls threeCallers 0))) =
     [Returned (''parsed hiera.yaml'', ''m0''), Returned (''parsed hiera.yaml'', ''m1''),
      Returned (''parsed hiera.yaml'', ''m2'')] \<and>
   newCalls (run parsingWorld raced (Config_calls threeCallers 0)) =
     [(0, ''hiera.yaml'', Inr ''parsed hiera.yaml'')] \<and>
   files (run parsingWorld raced (Config_calls threeCallers 0)) = 1 \<and>
   route parsingWorld raced (Config_calls threeCallers 0) 1 =
     [Entry, FastLoad, NewLock, Publish, UnlockOwn (LockEntry 0), RLock 0, Reload 0,
      RUnlock 0 ''parsed hiera.yaml'', Resolved ''parsed hiera.yaml'',
      Returned (''parsed hiera.yaml'', ''m1'')] \<and>
   route parsingWorld raced (Config_calls threeCallers 0) 2 =
     [Entry, FastLoad, Resolved ''parsed hiera.yaml'', Returned (''parsed hiera.yaml'', ''m2'')] \<and>
   length (callsOf (newCalls (run parsingWorld raced (Config_calls threeCallers 0))) ''hiera.yaml'') \<le> 1 \<and>
   (\<exists>conf l.
      callsOf (newCalls (run parsingWorld raced (Config_calls threeCallers 0))) ''hiera.yaml'' =
        [(l, ''hiera.yaml'', Inr conf)] \<and>
      (''parsed hiera.yaml'', ''m1'') = Resolve parsingWorld 1 conf ''m1'') \<and>
   (\<exists>more. \<forall>j < length threeCallers. \<exists>rc.
      at (callers (run parsingWorld more (Config_calls threeCallers 0)) ! j) = Returned rc)"
proof -
  let ?s = "run parsingWorld raced (Config_calls threeCallers 0)"
  note T = Config_single_flight [OF refl, of parsingWorld raced threeCallers 0]
  note T0 = Config_single_flight [OF refl, of parsingWorld "[]" threeCallers 0]
  have p: "parses parsingWorld threeCallers"
    by (simp add: parses_def parsingWorld_def threeCallers_def)
  have r: "map at (callers ?s) =
     [Returned (''parsed hiera.yaml'', ''m0''), Returned (''parsed hiera.yaml'', ''m1''),
      Returned (''parsed hiera.yaml'', ''m2'')] \<and>
     newCalls ?s = [(0, ''hiera.yaml'', Inr ''parsed hiera.yaml'')] \<and> files ?s = 1"
    by code_simp
  have r1: "route parsingWorld raced (Config_calls threeCallers 0) 1 =
     [Entry, FastLoad, NewLock, Publish, UnlockOwn (LockEntry 0), RLock 0, Reload 0,
      RUnlock 0 ''parsed hiera.yaml'', Resolved ''parsed hiera.yaml'',
      Returned (''parsed hiera.yaml'', ''m1'')]"
    by code_simp
  have r2: "route parsingWorld raced (Config_calls threeCallers 0) 2 =
     [Entry, FastLoad, Resolved ''parsed hiera.yaml'', Returned (''parsed hiera.yaml'', ''m2'')]"
    by code_simp
  have a: "length (callsOf (newCalls ?s) ''hiera.yaml'') \<le> 1"
    using T by blast
  have at1: "at (callers ?s ! 1) = Returned (''parsed hiera.yaml'', ''m1'')"
    by code_simp
  have q: "requested parsingWorld (fst (threeCallers ! 1)) = ''hiera.yaml''"
    "snd (threeCallers ! 1) = ''m1''" "1 < length threeCallers"
    by (simp_all add: requested_def parsingWorld_def threeCallers_def)
  from T have "\<forall>j < length threeCallers. \<forall>rc. at (callers ?s ! j) = Returned rc \<longrightarrow>
        (\<exists>conf l.
           callsOf (newCalls ?s) (requested parsingWorld (fst (threeCallers ! j))) =
             [(l, requested parsingWorld (fst (threeCallers ! j)), Inr conf)] \<and>
           sharedCache ?s (cpOf (requested parsingWorld (fst (threeCallers ! j)))) =
             Some (ConfigEntry conf) \<and>
           rc = Resolve parsingWorld j conf (snd (threeCallers ! j)))"
    by blast
  with at1 q have b: "\<exists>conf l.
      callsOf (newCalls ?s) ''hiera.yaml'' = [(l, ''hiera.yaml'', Inr conf)] \<and>
      (''parsed hiera.yaml'', ''m1'') = Resolve parsingWorld 1 conf ''m1''"
    by (metis (no_types, lifting))
  from T0 p have c: "\<exists>more. \<forall>j < length threeCallers. \<exists>rc.
      at (callers (run parsingWorld more (Config_calls threeCallers 0)) ! j) = Returned rc"
    by simp
  from p r r1 r2 a b c show ?thesis by blast
qed

text \<open>
  The claim C1 as stated has every caller but one block on the published lock and
  read the config again. Of two callers that have both entered \<^verbatim>\<open>Config\<close>, the second
  loads from the cache only after the first has stored the config: it goes from its
  first load straight to the resolution and never takes a lock. And where
  \<^verbatim>\<open>config.New\<close> panics, the caller that called it ends with its lock held and the
  others wait at that lock with no step left to any caller.
\<close>

theorem Config_fast_path_counterexample:
  "route parsingWorld lateLoad (Config_calls twoCallers 0) 0 =
     [Entry, FastLoad, NewLock, Publish, Construct, StoreConfig ''parsed hiera.yaml'',
      Unlock ''parsed hiera.yaml'', Resolved ''parsed hiera.yaml'',
      Returned (''parsed hiera.yaml'', ''m0'')] \<and>
   at (callers (run parsingWorld [1] (Config_calls twoCallers 0)) ! 0) = Entry \<and>
   at (callers (run parsingWorld [1] (Config_calls twoCallers 0)) ! 1) = FastLoad \<and>
   route parsingWorld lateLoad (Config_calls twoCallers 0) 1 =
     [Entry, FastLoad, Resolved ''parsed hiera.yaml'', Returned (''parsed hiera.yaml'', ''m1'')] \<and>
   map at (callers (run failingWorld stalled (Config_calls threeCallers 0))) =
     [Panicked (Failure ''unreadable''), RLock 0, RLock 0] \<and>
   map (\<lambda>i. Option.is_none (step failingWorld i (run failingWorld stalled (Config_calls threeCallers 0))))
     [0, 1, 2] = [True, True, True]"
  by code_simp

end
